theory Spec2Isabelle
  imports Main "HOL-Library.Word" "HOL-Library.Stream"
begin

section \<open>The DRM/EGL presentation engine of video/out/opengl/context_drm_egl.c\<close>

text \<open>
  The engine is single threaded. Its state is \<^verbatim>\<open>struct priv\<close> together with the
  pieces of \<^verbatim>\<open>struct kms\<close> and of the options it reads. Everything the code asks of
  the kernel, of GBM and of GL is answered by the environment: for every external call
  the state carries the stream of answers that the successive calls will get, and a call
  takes the head of its stream. Calls whose effect is visible only outside the process
  (a buffer locked from or handed back to the producer, an atomic commit) are appended to
  a log.

  A pointer is an option: \<open>None\<close> is NULL. The entries of \<^verbatim>\<open>bo_queue\<close> are never NULL
  (they come from \<^verbatim>\<open>talloc\<close> in \<^verbatim>\<open>enqueue_bo\<close>, which aborts instead of returning
  NULL), so the queue is a list of frames, and \<^verbatim>\<open>num_bos\<close> is its length; likewise
  \<^verbatim>\<open>num_vsync_fences\<close> is the length of \<^verbatim>\<open>vsync_fences\<close>. A function returns
  \<open>None\<close> when the C code does not return: it dereferences NULL, removes from an empty
  array, or loops for ever.
\<close>

subsection \<open>Data\<close>

type_synonym gbm_bo = nat
type_synonym GLsync = nat

record drm_vsync_tuple =
  ust :: "64 word"
  msc :: "32 word"
  sbc :: "32 word"

record gbm_frame =
  bo :: "gbm_bo option"
  frame_vsync :: drm_vsync_tuple

record framebuffer =
  fb_fd :: int
  fb_width :: "32 word"
  fb_height :: "32 word"
  fb_id :: "32 word"

datatype drm_object = Connector | Crtc | Draw_plane

type_synonym atomic_req = "(drm_object \<times> string \<times> 64 word) list"

datatype commit_flag = ALLOW_MODESET | NONBLOCK | PAGE_FLIP_EVENT

text \<open>One call of \<^verbatim>\<open>drmModeAtomicCommit\<close>: the request, the flags, the user data, and
  (for the record only) the value \<^verbatim>\<open>waiting_for_flip\<close> had when the call was made.\<close>

record commit =
  c_request :: "atomic_req option"
  c_flags :: "commit_flag list"
  c_data :: "drm_vsync_tuple option"
  c_pending :: bool

text \<open>What one round of \<^verbatim>\<open>poll\<close> and \<^verbatim>\<open>drmHandleEvent\<close> in \<^verbatim>\<open>wait_on_flip\<close> brings:
  no POLLIN within the timeout; a dispatch that runs the page flip handler (the event
  carries the vsync counters the handler leaves in \<^verbatim>\<open>p->vsync\<close>); a dispatch that
  returns 0 without a page flip event; a dispatch that fails.\<close>

datatype poll_outcome =
  Poll_timeout | Flip_event drm_vsync_tuple | Other_event | Event_error

text \<open>The options and the constant parts of \<^verbatim>\<open>struct kms\<close> and of GL and GBM. The
  option \<^verbatim>\<open>swapchain_depth\<close> is an \<^verbatim>\<open>int\<close> that the code compares with the unsigned
  \<^verbatim>\<open>num_bos\<close>; its range starts at 1, so it is a natural number here.\<close>

record config =
  swapchain_depth :: nat
  drm_vrr_enabled :: int
  vrr_capable :: "64 word"
  has_FenceSync :: bool
  kms_fd :: int
  crtc_id :: "32 word"
  hdisplay :: "16 word"
  vdisplay :: "16 word"
  draw_width :: "32 word"
  draw_height :: "32 word"
  bo_width :: "gbm_bo \<Rightarrow> 32 word"
  bo_height :: "gbm_bo \<Rightarrow> 32 word"

text \<open>The answers of the environment, one stream for each external function.\<close>

record env =
  lock_front_buffer :: "gbm_bo option stream"
  has_free_buffers :: "bool stream"
  fence_sync :: "GLsync option stream"
  add_fb :: "32 word option stream"
  atomic_alloc :: "bool stream"
  atomic_commit :: "int stream"
  set_property :: "int stream"
  ensure_blob :: "32 word option stream"
  save_old_state :: "(bool \<times> bool) stream"
  restore_old_state :: "(bool \<times> bool \<times> atomic_req) stream"
  poll_events :: "poll_outcome stream"

record priv =
  bo_queue :: "gbm_frame list"
  vsync_fences :: "GLsync list"
  fb :: "framebuffer option"
  gbm_format :: "32 word"
  active :: bool
  waiting_for_flip :: bool
  still :: bool
  paused :: bool
  vsync :: drm_vsync_tuple
  request :: "atomic_req option"
  old_state_saved :: bool
  mode_blob_id :: "32 word"
  user_data :: "gbm_bo \<rightharpoonup> framebuffer"
  closures :: "drm_vsync_tuple list"
  locked :: "gbm_bo list"
  released :: "gbm_bo list"
  commits :: "commit list"
  cfg :: config
  env :: env

definition num_bos :: "priv \<Rightarrow> nat" where
  "num_bos p = length (bo_queue p)"

definition num_vsync_fences :: "priv \<Rightarrow> nat" where
  "num_vsync_fences p = length (vsync_fences p)"

subsection \<open>External calls\<close>

text \<open>Each external function takes the next answer of its stream. \<^verbatim>\<open>eglSwapBuffers\<close>,
  \<^verbatim>\<open>ClientWaitSync\<close>, \<^verbatim>\<open>DeleteSync\<close>, \<^verbatim>\<open>drmModeAtomicFree\<close>, \<^verbatim>\<open>talloc_free\<close>
  and the log macros return nothing the code reads and change nothing of the state
  below, so they do not appear.\<close>

definition gbm_surface_lock_front_buffer :: "priv \<Rightarrow> gbm_bo option \<times> priv" where
  "gbm_surface_lock_front_buffer p =
     (shd (lock_front_buffer (env p)),
      p\<lparr>locked := locked p @ (case shd (lock_front_buffer (env p)) of None \<Rightarrow> [] | Some b \<Rightarrow> [b]),
        env := (env p)\<lparr>lock_front_buffer := stl (lock_front_buffer (env p))\<rparr>\<rparr>)"

definition gbm_surface_has_free_buffers :: "priv \<Rightarrow> bool \<times> priv" where
  "gbm_surface_has_free_buffers p =
     (shd (has_free_buffers (env p)),
      p\<lparr>env := (env p)\<lparr>has_free_buffers := stl (has_free_buffers (env p))\<rparr>\<rparr>)"

definition gbm_surface_release_buffer :: "gbm_bo \<Rightarrow> priv \<Rightarrow> priv" where
  "gbm_surface_release_buffer b p = p\<lparr>released := released p @ [b]\<rparr>"

definition FenceSync :: "priv \<Rightarrow> GLsync option \<times> priv" where
  "FenceSync p =
     (shd (fence_sync (env p)), p\<lparr>env := (env p)\<lparr>fence_sync := stl (fence_sync (env p))\<rparr>\<rparr>)"

text \<open>\<^verbatim>\<open>drmModeAddFB2\<close> and \<^verbatim>\<open>drmModeAddFB2WithModifiers\<close>: \<open>Some i\<close> is success with
  the framebuffer id \<open>i\<close> stored, \<open>None\<close> is failure (the id keeps the 0 of
  \<^verbatim>\<open>talloc_zero\<close>).\<close>

definition drmModeAddFB2 :: "priv \<Rightarrow> 32 word option \<times> priv" where
  "drmModeAddFB2 p =
     (shd (add_fb (env p)), p\<lparr>env := (env p)\<lparr>add_fb := stl (add_fb (env p))\<rparr>\<rparr>)"

definition drmModeAtomicAlloc :: "priv \<Rightarrow> atomic_req option \<times> priv" where
  "drmModeAtomicAlloc p =
     (if shd (atomic_alloc (env p)) then Some [] else None,
      p\<lparr>env := (env p)\<lparr>atomic_alloc := stl (atomic_alloc (env p))\<rparr>\<rparr>)"

definition drmModeAtomicCommit ::
  "atomic_req option \<Rightarrow> commit_flag list \<Rightarrow> drm_vsync_tuple option \<Rightarrow> priv \<Rightarrow> int \<times> priv" where
  "drmModeAtomicCommit req flags data p =
     (shd (atomic_commit (env p)),
      p\<lparr>commits := commits p @
           [\<lparr>c_request = req, c_flags = flags, c_data = data, c_pending = waiting_for_flip p\<rparr>],
        env := (env p)\<lparr>atomic_commit := stl (atomic_commit (env p))\<rparr>\<rparr>)"

text \<open>Modelled from the spec: \<^verbatim>\<open>drm_object_set_property\<close> (video/out/drm_common.c is not
  under src/), which "accumulates per-object property changes into one kernel
  transaction". A negative answer is a failure and leaves the request as it is.\<close>

definition drm_object_set_property ::
  "atomic_req option \<Rightarrow> drm_object \<Rightarrow> string \<Rightarrow> 64 word \<Rightarrow> priv \<Rightarrow> int \<times> atomic_req option \<times> priv" where
  "drm_object_set_property req obj name v p =
     (let r = shd (set_property (env p));
          p' = p\<lparr>env := (env p)\<lparr>set_property := stl (set_property (env p))\<rparr>\<rparr>
      in case req of
           None \<Rightarrow> (r, None, p')
         | Some props \<Rightarrow> if r < 0 then (r, req, p') else (r, Some (props @ [(obj, name, v)]), p'))"

text \<open>Successive calls on one object whose results the code ignores.\<close>

fun drm_object_set_properties ::
  "atomic_req option \<Rightarrow> drm_object \<Rightarrow> (string \<times> 64 word) list \<Rightarrow> priv \<Rightarrow> atomic_req option \<times> priv" where
  "drm_object_set_properties req obj [] p = (req, p)"
| "drm_object_set_properties req obj ((name, v) # rest) p =
     (case drm_object_set_property req obj name v p of
        (_, req', p') \<Rightarrow> drm_object_set_properties req' obj rest p')"

text \<open>Modelled from the spec: \<^verbatim>\<open>drm_mode_ensure_blob\<close>, \<^verbatim>\<open>drm_atomic_save_old_state\<close> and
  \<^verbatim>\<open>drm_atomic_restore_old_state\<close> (drm_common.c): "attaching a mode blob", "save
  current kernel mode-setting state for later restore", "build a transaction restoring
  the saved state". The answer says whether the call succeeded and what it leaves in
  \<^verbatim>\<open>mode.blob_id\<close>, in \<^verbatim>\<open>old_state.saved\<close> and in the request.\<close>

definition drm_mode_ensure_blob :: "priv \<Rightarrow> bool \<times> priv" where
  "drm_mode_ensure_blob p =
     (let p' = p\<lparr>env := (env p)\<lparr>ensure_blob := stl (ensure_blob (env p))\<rparr>\<rparr>
      in case shd (ensure_blob (env p)) of
           None \<Rightarrow> (False, p')
         | Some i \<Rightarrow> (True, p'\<lparr>mode_blob_id := i\<rparr>))"

definition drm_atomic_save_old_state :: "priv \<Rightarrow> bool \<times> priv" where
  "drm_atomic_save_old_state p =
     (case shd (save_old_state (env p)) of
        (ok, saved) \<Rightarrow>
          (ok, p\<lparr>old_state_saved := saved,
                 env := (env p)\<lparr>save_old_state := stl (save_old_state (env p))\<rparr>\<rparr>))"

definition drm_atomic_restore_old_state :: "atomic_req \<Rightarrow> priv \<Rightarrow> bool \<times> atomic_req \<times> priv" where
  "drm_atomic_restore_old_state req p =
     (case shd (restore_old_state (env p)) of
        (ok, saved, props) \<Rightarrow>
          (ok, req @ props,
           p\<lparr>old_state_saved := saved,
             env := (env p)\<lparr>restore_old_state := stl (restore_old_state (env p))\<rparr>\<rparr>))"

text \<open>Modelled from the spec: the page flip handler \<^verbatim>\<open>drm_pflip_cb\<close> (drm_common.c),
  which is to "compute elapsed vsync count and timestamp delta, update skipped-vsync
  count, store last-display timestamp, and clear the pending flag". The counters it
  leaves come with the event; it consumes the closure of the commit that completed.\<close>

definition drm_pflip_cb :: "drm_vsync_tuple \<Rightarrow> priv \<Rightarrow> priv" where
  "drm_pflip_cb v p = p\<lparr>vsync := v, waiting_for_flip := False, closures := drop 1 (closures p)\<rparr>"

definition poll :: "priv \<Rightarrow> poll_outcome \<times> priv" where
  "poll p =
     (shd (poll_events (env p)), p\<lparr>env := (env p)\<lparr>poll_events := stl (poll_events (env p))\<rparr>\<rparr>)"

definition POLLIN :: "poll_outcome \<Rightarrow> bool" where
  "POLLIN ev = (ev \<noteq> Poll_timeout)"

definition drmHandleEvent :: "poll_outcome \<Rightarrow> priv \<Rightarrow> int \<times> priv" where
  "drmHandleEvent ev p =
     (case ev of
        Flip_event v \<Rightarrow> (0, drm_pflip_cb v p)
      | Event_error \<Rightarrow> (- 1, p)
      | _ \<Rightarrow> (0, p))"

subsection \<open>Framebuffers, session setup and teardown\<close>

text \<open>\<^verbatim>\<open>update_framebuffer_from_bo\<close>: the framebuffer cached as the buffer's user data, or
  a new one, registered with the kernel and cached. The two registration calls (with and
  without modifiers) differ only in what they pass to the kernel.\<close>

definition update_framebuffer_from_bo :: "gbm_bo \<Rightarrow> priv \<Rightarrow> priv" where
  "update_framebuffer_from_bo b p =
     (case user_data p b of
        Some f \<Rightarrow> p\<lparr>fb := Some f\<rparr>
      | None \<Rightarrow>
          (case drmModeAddFB2 p of
             (ans, p') \<Rightarrow>
               let f = \<lparr>fb_fd = kms_fd (cfg p), fb_width = bo_width (cfg p) b,
                        fb_height = bo_height (cfg p) b,
                        fb_id = (case ans of None \<Rightarrow> 0 | Some i \<Rightarrow> i)\<rparr>
               in p'\<lparr>user_data := (user_data p')(b \<mapsto> f), fb := Some f\<rparr>))"

text \<open>\<^verbatim>\<open>crtc_setup\<close>. The result is \<open>None\<close> where the code reads \<^verbatim>\<open>p->fb->id\<close> with
  \<^verbatim>\<open>p->fb\<close> NULL.\<close>

definition crtc_setup :: "priv \<Rightarrow> (bool \<times> priv) option" where
  "crtc_setup p0 =
     (if active p0 then Some (True, p0)
      else
        let p1 = p0\<lparr>active := True\<rparr>;
            (saved_ok, p2) = drm_atomic_save_old_state p1;
            (request, p3) = drmModeAtomicAlloc p2
        in
        if request = None then Some (False, p3)
        else
        let (ret1, r1, p4) =
              drm_object_set_property request Connector ''CRTC_ID'' (ucast (crtc_id (cfg p3))) p3
        in
        if ret1 < 0 then Some (False, p4)
        else
        let (blob_ok, p5) = drm_mode_ensure_blob p4 in
        if \<not> blob_ok then Some (False, p5)
        else
        let (ret2, r2, p6) =
              drm_object_set_property r1 Crtc ''MODE_ID'' (ucast (mode_blob_id p5)) p5
        in
        if ret2 < 0 then Some (False, p6)
        else
        let (ret3, r3, p7) = drm_object_set_property r2 Crtc ''ACTIVE'' 1 p6 in
        if ret3 < 0 then Some (False, p7)
        else
        let (r4, p8) =
              (if drm_vrr_enabled (cfg p7) = 1 \<or>
                  (vrr_capable (cfg p7) \<noteq> 0 \<and> drm_vrr_enabled (cfg p7) = - 1)
               then snd (drm_object_set_property r3 Crtc ''VRR_ENABLED'' 1 p7)
               else (r3, p7))
        in
        (case fb p8 of
           None \<Rightarrow> None
         | Some f \<Rightarrow>
             let (r5, p9) =
                   drm_object_set_properties r4 Draw_plane
                     [(''FB_ID'', ucast (fb_id f)),
                      (''CRTC_ID'', ucast (crtc_id (cfg p8))),
                      (''SRC_X'', 0),
                      (''SRC_Y'', 0),
                      (''SRC_W'', scast (push_bit 16 (draw_width (cfg p8)))),
                      (''SRC_H'', scast (push_bit 16 (draw_height (cfg p8)))),
                      (''CRTC_X'', 0),
                      (''CRTC_Y'', 0),
                      (''CRTC_W'', ucast (hdisplay (cfg p8))),
                      (''CRTC_H'', ucast (vdisplay (cfg p8)))] p8;
                 (ret, p10) = drmModeAtomicCommit r5 [ALLOW_MODESET] None p9
             in Some (ret = 0, p10)))"

definition crtc_release :: "priv \<Rightarrow> priv" where
  "crtc_release p0 =
     (if \<not> active p0 then p0
      else
        let p1 = p0\<lparr>active := False\<rparr> in
        if \<not> old_state_saved p1 then p1
        else
        let (request, p2) = drmModeAtomicAlloc p1 in
        (case request of
           None \<Rightarrow> p2
         | Some r0 \<Rightarrow>
             let (restored, r1, p3) = drm_atomic_restore_old_state r0 p2;
                 (ret, p4) = drmModeAtomicCommit (Some r1) [ALLOW_MODESET] None p3
             in p4))"

text \<open>\<^verbatim>\<open>release_vt\<close> and \<^verbatim>\<open>acquire_vt\<close>; \<^verbatim>\<open>drmDropMaster\<close> and \<^verbatim>\<open>drmSetMaster\<close> only
  log. \<^verbatim>\<open>acquire_vt\<close> ignores the result of \<^verbatim>\<open>crtc_setup\<close>.\<close>

definition release_vt :: "priv \<Rightarrow> priv" where
  "release_vt p = crtc_release p"

definition acquire_vt :: "priv \<Rightarrow> priv option" where
  "acquire_vt p = map_option snd (crtc_setup p)"

subsection \<open>Page flips\<close>

text \<open>\<^verbatim>\<open>queue_flip\<close>. \<open>None\<close> where the code would dereference a NULL buffer object.
  The closure carries the frame's vsync stamp; it stays allocated only when the commit
  succeeds.\<close>

definition queue_flip :: "gbm_frame \<Rightarrow> priv \<Rightarrow> priv option" where
  "queue_flip frame p0 =
     (case bo frame of
        None \<Rightarrow> None
      | Some b \<Rightarrow>
          let p1 = update_framebuffer_from_bo b p0 in
          (case fb p1 of
             None \<Rightarrow> None
           | Some f \<Rightarrow>
               let data = frame_vsync frame;
                   (req, p2) =
                     drm_object_set_properties (request p1) Draw_plane
                       [(''FB_ID'', ucast (fb_id f)),
                        (''CRTC_ID'', ucast (crtc_id (cfg p1))),
                        (''ZPOS'', 1)] p1;
                   (ret, p3) =
                     drmModeAtomicCommit req [NONBLOCK, PAGE_FLIP_EVENT] (Some data)
                       (p2\<lparr>request := req\<rparr>);
                   p4 = (if ret \<noteq> 0 then p3 else p3\<lparr>closures := closures p3 @ [data]\<rparr>);
                   p5 = p4\<lparr>waiting_for_flip := (ret = 0)\<rparr>;
                   (fresh, p6) = drmModeAtomicAlloc p5
               in Some (p6\<lparr>request := fresh\<rparr>)))"

partial_function (option) wait_on_flip :: "priv \<Rightarrow> priv option" where
  "wait_on_flip p =
     (if waiting_for_flip p then
        (case poll p of
           (ev, p1) \<Rightarrow>
             if POLLIN ev then
               (case drmHandleEvent ev p1 of
                  (ret, p2) \<Rightarrow> if ret \<noteq> 0 then Some p2 else wait_on_flip p2)
             else wait_on_flip p1)
      else Some p)"

subsection \<open>The buffer queue and the fences\<close>

definition enqueue_bo :: "gbm_bo option \<Rightarrow> priv \<Rightarrow> priv" where
  "enqueue_bo b p =
     (let v = (vsync p)\<lparr>sbc := sbc (vsync p) + 1\<rparr>
      in p\<lparr>vsync := v, bo_queue := bo_queue p @ [\<lparr>bo = b, frame_vsync = v\<rparr>]\<rparr>)"

text \<open>\<^verbatim>\<open>MP_TARRAY_REMOVE_AT\<close> at index 0 of an empty array moves memory of size
  \<open>(0 - 0 - 1) * sizeof\<close> and wraps the count: \<open>None\<close>.\<close>

definition dequeue_bo :: "priv \<Rightarrow> priv option" where
  "dequeue_bo p = (case bo_queue p of [] \<Rightarrow> None | f # fs \<Rightarrow> Some (p\<lparr>bo_queue := fs\<rparr>))"

definition swapchain_step :: "priv \<Rightarrow> priv option" where
  "swapchain_step p =
     (if \<not> (num_bos p > 0) then Some p
      else
        dequeue_bo (case bo (bo_queue p ! 0) of
                      Some b \<Rightarrow> gbm_surface_release_buffer b p
                    | None \<Rightarrow> p))"

definition new_fence :: "priv \<Rightarrow> priv" where
  "new_fence p =
     (if has_FenceSync (cfg p) then
        (case FenceSync p of
           (Some fence, p') \<Rightarrow> p'\<lparr>vsync_fences := vsync_fences p' @ [fence]\<rparr>
         | (None, p') \<Rightarrow> p')
      else p)"

function wait_fence :: "priv \<Rightarrow> priv" where
  "wait_fence p =
     (if num_vsync_fences p \<noteq> 0 \<and> num_vsync_fences p \<ge> num_bos p
      then wait_fence (p\<lparr>vsync_fences := tl (vsync_fences p)\<rparr>)
      else p)"
  by pat_completeness auto
termination
  by (relation "measure num_vsync_fences") (auto simp: num_vsync_fences_def)

declare wait_fence.simps [simp del]

subsection \<open>Swapping buffers\<close>

text \<open>The condition of the \<^verbatim>\<open>while\<close> loop of \<^verbatim>\<open>drm_egl_swap_buffers\<close>. C evaluates
  \<^verbatim>\<open>||\<close> from the left and stops at the first true operand, so the surface is asked
  for free buffers only when the first two operands are false.\<close>

definition loop_cond :: "bool \<Rightarrow> priv \<Rightarrow> bool \<times> priv" where
  "loop_cond drain p =
     (if drain \<or> num_bos p > swapchain_depth (cfg p) then (True, p)
      else let (free, p') = gbm_surface_has_free_buffers p in (\<not> free, p'))"

text \<open>One pass through the body of the loop ends in \<^verbatim>\<open>break\<close>, or goes back to the
  loop condition (at \<^verbatim>\<open>continue\<close> or at the end of the body).\<close>

datatype loop_exit = Break priv | Continue priv

text \<open>The first statement of the body: a pending flip is waited for, and then the head
  is retired. Of the two tests for a hole that follow, \<^verbatim>\<open>!p->gbm.bo_queue[1]\<close> is never
  true (the entries are not NULL); \<^verbatim>\<open>!p->gbm.bo_queue[1]->bo\<close> is the test of the model.\<close>

definition finish_pending_flip :: "priv \<Rightarrow> priv option" where
  "finish_pending_flip p =
     (if waiting_for_flip p then Option.bind (wait_on_flip p) swapchain_step else Some p)"

definition swap_iteration :: "priv \<Rightarrow> loop_exit option" where
  "swap_iteration p0 =
     (case finish_pending_flip p0 of
        None \<Rightarrow> None
      | Some p1 \<Rightarrow>
          if num_bos p1 \<le> 1 then Some (Break p1)
          else if bo (bo_queue p1 ! 1) = None then map_option Continue (swapchain_step p1)
          else map_option Continue (queue_flip (bo_queue p1 ! 1) p1))"

fun exit_state :: "loop_exit \<Rightarrow> priv" where
  "exit_state (Break p) = p"
| "exit_state (Continue p) = p"

partial_function (option) swap_loop :: "bool \<Rightarrow> priv \<Rightarrow> priv option" where
  "swap_loop drain p =
     (case loop_cond drain p of
        (go, p0) \<Rightarrow>
          if go then
            (case swap_iteration p0 of
               None \<Rightarrow> None
             | Some (Break p1) \<Rightarrow> Some p1
             | Some (Continue p1) \<Rightarrow> swap_loop drain p1)
          else Some p0)"

definition drm_egl_swap_buffers :: "priv \<Rightarrow> priv option" where
  "drm_egl_swap_buffers p =
     (let drain = (paused p \<or> still p) in
      if \<not> active p then Some p
      else
        let p1 = wait_fence p;
            (new_bo, p2) = gbm_surface_lock_front_buffer p1
        in if new_bo = None then Some p2
           else swap_loop drain (new_fence (enqueue_bo new_bo p2)))"

subsection \<open>The other entry points\<close>

text \<open>\<^verbatim>\<open>drm_egl_start_frame\<close> and \<^verbatim>\<open>drm_egl_submit_frame\<close>, up to their calls into
  \<^verbatim>\<open>ra_gl_ctx\<close>; \<^verbatim>\<open>drm_egl_control\<close>, as far as it changes the state.\<close>

definition drm_egl_start_frame :: "priv \<Rightarrow> priv" where
  "drm_egl_start_frame p =
     (if request p = None then
        (let (r, p') = drmModeAtomicAlloc p in p'\<lparr>request := r\<rparr>)
      else p)"

definition drm_egl_submit_frame :: "bool \<Rightarrow> priv \<Rightarrow> priv" where
  "drm_egl_submit_frame frame_still p = p\<lparr>still := frame_still\<rparr>"

datatype voctrl =
  VOCTRL_GET_DISPLAY_FPS | VOCTRL_GET_DISPLAY_RES | VOCTRL_PAUSE | VOCTRL_RESUME

fun drm_egl_control :: "voctrl \<Rightarrow> priv \<Rightarrow> priv" where
  "drm_egl_control VOCTRL_PAUSE p = p\<lparr>paused := True\<rparr>"
| "drm_egl_control VOCTRL_RESUME p =
     p\<lparr>paused := False, vsync := (vsync p)\<lparr>ust := 0, msc := 0\<rparr>\<rparr>"
| "drm_egl_control _ p = p"

text \<open>An execution of the engine is a sequence of calls of its entry points, made by
  the video output layer and by the VT switcher.\<close>

datatype operation =
  Start_frame | Submit_frame bool | Swap_buffers | Control voctrl | Acquire_vt | Release_vt

fun perform :: "operation \<Rightarrow> priv \<Rightarrow> priv option" where
  "perform Start_frame p = Some (drm_egl_start_frame p)"
| "perform (Submit_frame b) p = Some (drm_egl_submit_frame b p)"
| "perform Swap_buffers p = drm_egl_swap_buffers p"
| "perform (Control c) p = Some (drm_egl_control c p)"
| "perform Acquire_vt p = acquire_vt p"
| "perform Release_vt p = Some (release_vt p)"

fun exec :: "operation list \<Rightarrow> priv \<Rightarrow> priv option" where
  "exec [] p = Some p"
| "exec (x # xs) p = (case perform x p of None \<Rightarrow> None | Some p' \<Rightarrow> exec xs p')"

text \<open>The two queue operations on their own, in any order.\<close>

datatype queue_op = Enqueue gbm_bo | Retire

fun queue_step :: "queue_op \<Rightarrow> priv \<Rightarrow> priv option" where
  "queue_step (Enqueue b) p = Some (enqueue_bo (Some b) p)"
| "queue_step Retire p = swapchain_step p"

fun queue_run :: "queue_op list \<Rightarrow> priv \<Rightarrow> priv option" where
  "queue_run [] p = Some p"
| "queue_run (x # xs) p = (case queue_step x p of None \<Rightarrow> None | Some p' \<Rightarrow> queue_run xs p')"

fun submitted :: "queue_op list \<Rightarrow> gbm_bo list" where
  "submitted [] = []"
| "submitted (Enqueue b # xs) = b # submitted xs"
| "submitted (Retire # xs) = submitted xs"

text \<open>The buffers the queue holds, oldest first (a hole holds none).\<close>

definition queued :: "priv \<Rightarrow> gbm_bo list" where
  "queued p = List.map_filter bo (bo_queue p)"

subsection \<open>Format negotiation\<close>

text \<open>The \<^verbatim>\<open>for\<close> loop of \<^verbatim>\<open>probe_gbm_format\<close> over the formats of the plane, with
  the two flags it sets.\<close>

fun scan_formats :: "32 word list \<Rightarrow> 32 word \<Rightarrow> 32 word \<Rightarrow> bool \<times> bool \<Rightarrow> bool \<times> bool" where
  "scan_formats [] argb_format xrgb_format (have_argb, have_xrgb) = (have_argb, have_xrgb)"
| "scan_formats (f # fs) argb_format xrgb_format (have_argb, have_xrgb) =
     (if f = argb_format then scan_formats fs argb_format xrgb_format (True, have_xrgb)
      else if f = xrgb_format then scan_formats fs argb_format xrgb_format (have_argb, True)
      else scan_formats fs argb_format xrgb_format (have_argb, have_xrgb))"

text \<open>\<^verbatim>\<open>probe_gbm_format\<close>; \<open>drmplane\<close> is what \<^verbatim>\<open>drmModeGetPlane\<close> returned (its
  formats), which the code reads without a NULL check.\<close>

definition probe_gbm_format ::
  "32 word list option \<Rightarrow> 32 word \<Rightarrow> 32 word \<Rightarrow> priv \<Rightarrow> (bool \<times> priv) option" where
  "probe_gbm_format drmplane argb_format xrgb_format p =
     (case drmplane of
        None \<Rightarrow> None
      | Some formats \<Rightarrow>
          let (have_argb, have_xrgb) = scan_formats formats argb_format xrgb_format (False, False)
          in if have_argb then Some (True, p\<lparr>gbm_format := argb_format\<rparr>)
             else if have_xrgb then Some (True, p\<lparr>gbm_format := xrgb_format\<rparr>)
             else Some (False, p))"

subsection \<open>Observations\<close>

text \<open>A page flip commit that was issued while a flip was still pending.\<close>

definition flip_while_pending :: "commit \<Rightarrow> bool" where
  "flip_while_pending c = (PAGE_FLIP_EVENT \<in> set (c_flags c) \<and> c_pending c)"

text \<open>The environment never lets \<^verbatim>\<open>drmHandleEvent\<close> fail.\<close>

definition dispatch_never_fails :: "priv \<Rightarrow> bool" where
  "dispatch_never_fails p = (Event_error \<notin> sset (poll_events (env p)))"

text \<open>The buffers released and the buffers queued are, in this order, the buffers that
  were locked from the surface.\<close>

definition fifo_ok :: "priv \<Rightarrow> bool" where
  "fifo_ok p = (released p @ queued p = locked p)"


text \<open>The answers that let \<^verbatim>\<open>crtc_setup\<close> reach its commit: the request is allocated,
  the mode blob is there, and \<^verbatim>\<open>CRTC_ID\<close>, \<^verbatim>\<open>MODE_ID\<close> and \<^verbatim>\<open>ACTIVE\<close> are set. And
  the condition under which \<^verbatim>\<open>crtc_release\<close> reaches its commit.\<close>

definition setup_reaches_commit :: "priv \<Rightarrow> bool" where
  "setup_reaches_commit p =
     (shd (atomic_alloc (env p)) \<and> shd (ensure_blob (env p)) \<noteq> None \<and>
      0 \<le> shd (set_property (env p)) \<and> 0 \<le> shd (stl (set_property (env p))) \<and>
      0 \<le> shd (stl (stl (set_property (env p)))))"

definition release_reaches_commit :: "priv \<Rightarrow> bool" where
  "release_reaches_commit p = (active p \<and> old_state_saved p \<and> shd (atomic_alloc (env p)))"

text \<open>Whatever has been polled, a later poll brings the page flip event or a failed
  dispatch; and every atomic commit succeeds.\<close>

definition flips_arrive :: "priv \<Rightarrow> bool" where
  "flips_arrive p =
     (\<forall>n. \<exists>m. poll_events (env p) !! (n + m) \<notin> {Poll_timeout, Other_event})"

definition commits_succeed :: "priv \<Rightarrow> bool" where
  "commits_succeed p = (\<forall>x \<in> sset (atomic_commit (env p)). x = 0)"

subsection \<open>Concrete states\<close>

text \<open>A configuration with swapchain depth 2, and an environment in which every call
  succeeds, the surface hands out the buffers 2, 3 and 4, and every poll brings the
  page flip event.\<close>

definition cfg0 :: config where
  "cfg0 = \<lparr>swapchain_depth = 2, drm_vrr_enabled = 0, vrr_capable = 0, has_FenceSync = True,
            kms_fd = 3, crtc_id = 40, hdisplay = 1920, vdisplay = 1080,
            draw_width = 1920, draw_height = 1080,
            bo_width = (\<lambda>b. 1920), bo_height = (\<lambda>b. 1080)\<rparr>"

definition stamp :: "nat \<Rightarrow> drm_vsync_tuple" where
  "stamp n = \<lparr>ust = 0, msc = 0, sbc = of_nat n\<rparr>"

definition env0 :: env where
  "env0 = \<lparr>lock_front_buffer = Some 2 ## Some 3 ## Some 4 ## sconst None,
            has_free_buffers = sconst True,
            fence_sync = sconst (Some 7),
            add_fb = sconst (Some 100),
            atomic_alloc = sconst True,
            atomic_commit = sconst 0,
            set_property = sconst 0,
            ensure_blob = sconst (Some 5),
            save_old_state = sconst (True, True),
            restore_old_state = sconst (True, False, []),
            poll_events = sconst (Flip_event (stamp 0))\<rparr>"

text \<open>The state a successful \<^verbatim>\<open>drm_egl_init\<close> leaves: buffer 1 is queued with its
  framebuffer registered, there is no fence, and the session is active.\<close>

definition fb0 :: framebuffer where
  "fb0 = \<lparr>fb_fd = 3, fb_width = 1920, fb_height = 1080, fb_id = 100\<rparr>"

definition init_state :: priv where
  "init_state =
     \<lparr>bo_queue = [\<lparr>bo = Some 1, frame_vsync = stamp 1\<rparr>], vsync_fences = [], fb = Some fb0,
      gbm_format = 0x34325241, active = True, waiting_for_flip = False, still = False,
      paused = False, vsync = stamp 1, request = Some [], old_state_saved = True,
      mode_blob_id = 5, user_data = [1 \<mapsto> fb0], closures = [], locked = [1], released = [],
      commits = [], cfg = cfg0, env = env0\<rparr>"

section \<open>Properties\<close>

lemmas ext_defs = gbm_surface_lock_front_buffer_def gbm_surface_has_free_buffers_def
  gbm_surface_release_buffer_def FenceSync_def drmModeAddFB2_def drmModeAtomicAlloc_def
  drmModeAtomicCommit_def drm_object_set_property_def drm_mode_ensure_blob_def
  drm_atomic_save_old_state_def drm_atomic_restore_old_state_def drm_pflip_cb_def poll_def
  POLLIN_def drmHandleEvent_def

lemmas op_defs = update_framebuffer_from_bo_def queue_flip_def enqueue_bo_def dequeue_bo_def
  swapchain_step_def new_fence_def loop_cond_def finish_pending_flip_def swap_iteration_def
  drm_egl_swap_buffers_def num_bos_def num_vsync_fences_def

text \<open>Unfolding everything evaluates a run from a concrete state: every condition is
  then decided, so the loops unfold only as far as they run.\<close>

lemmas run_simps = init_state_def env0_def cfg0_def fb0_def stamp_def ext_defs op_defs
  wait_fence.simps swap_loop.simps wait_on_flip.simps Let_def

subsection \<open>Retirement on an empty queue\<close>

lemma swapchain_step_returns: "\<exists>p'. swapchain_step p = Some p'"
  by (cases "bo_queue p") (auto simp: swapchain_step_def dequeue_bo_def num_bos_def
      gbm_surface_release_buffer_def split: option.splits)

lemma queue_run_returns: "\<exists>p'. queue_run ops p = Some p'"
proof (induction ops arbitrary: p)
  case Nil
  show ?case by simp
next
  case (Cons x xs)
  obtain p1 where "queue_step x p = Some p1"
    using swapchain_step_returns by (cases x) auto
  with Cons.IH [of p1] show ?case by simp
qed

text \<open>C10. On an empty queue \<^verbatim>\<open>swapchain_step\<close> returns the state it was given: the guard
  is tested before any entry is read and before \<^verbatim>\<open>dequeue_bo\<close>. So \<^verbatim>\<open>swapchain_step\<close>
  never removes from an empty array, in any state, and every sequence of enqueues and
  retirements runs to its end: \<^verbatim>\<open>num_bos\<close> never wraps below zero.\<close>

theorem swapchain_step_empty_queue:
  "(num_bos p = 0 \<longrightarrow> swapchain_step p = Some p) \<and>
   (\<exists>p'. swapchain_step p = Some p') \<and>
   (\<exists>p'. queue_run ops p = Some p')"
  using swapchain_step_returns [of p] queue_run_returns [of ops p]
  by (simp add: swapchain_step_def)

theorem swapchain_step_empty_queue_witness:
  "num_bos (init_state\<lparr>bo_queue := []\<rparr>) = 0 \<and>
   swapchain_step (init_state\<lparr>bo_queue := []\<rparr>) = Some (init_state\<lparr>bo_queue := []\<rparr>) \<and>
   (\<exists>p'. queue_run [Retire, Enqueue 5, Retire, Retire] (init_state\<lparr>bo_queue := []\<rparr>) = Some p')"
  using swapchain_step_empty_queue
    [of "init_state\<lparr>bo_queue := []\<rparr>" "[Retire, Enqueue 5, Retire, Retire]"]
  by (simp add: num_bos_def del: queue_run.simps)

subsection \<open>Swapping on an inactive session\<close>

text \<open>C9. With the session inactive \<^verbatim>\<open>drm_egl_swap_buffers\<close> returns at once, and the
  state it returns is the state it was given, field by field: the queue, the fences, the
  vsync counters, the logs of locked buffers, of released buffers and of commits, and the
  answers the environment has yet to give (no external call was made).\<close>

theorem swap_buffers_inactive_unchanged:
  "\<not> active p \<Longrightarrow> drm_egl_swap_buffers p = Some p"
  by (simp add: drm_egl_swap_buffers_def)

theorem swap_buffers_inactive_unchanged_witness:
  "\<not> active (init_state\<lparr>active := False, paused := True\<rparr>) \<and>
   drm_egl_swap_buffers (init_state\<lparr>active := False, paused := True\<rparr>) =
     Some (init_state\<lparr>active := False, paused := True\<rparr>)"
  using swap_buffers_inactive_unchanged [of "init_state\<lparr>active := False, paused := True\<rparr>"]
  by simp

subsection \<open>Format negotiation\<close>

lemma scan_formats_eq:
  "scan_formats fs X Y (a, b) = (a \<or> X \<in> set fs, b \<or> (Y \<in> set fs \<and> Y \<noteq> X))"
  by (induction fs arbitrary: a b) auto

text \<open>C8. Given the formats of the plane, the alpha format \<open>X\<close> and the opaque format
  \<open>Y\<close>: if the plane has \<open>X\<close>, \<^verbatim>\<open>probe_gbm_format\<close> succeeds and selects \<open>X\<close>, whether
  or not the plane has \<open>Y\<close>; if it has \<open>Y\<close> and not \<open>X\<close>, it succeeds and selects \<open>Y\<close>;
  if it has neither, it fails and leaves \<^verbatim>\<open>gbm_format\<close> (and the rest of the state) as
  it was.\<close>

theorem probe_gbm_format_selection:
  "(X \<in> set formats \<longrightarrow>
      probe_gbm_format (Some formats) X Y p = Some (True, p\<lparr>gbm_format := X\<rparr>)) \<and>
   (X \<notin> set formats \<and> Y \<in> set formats \<longrightarrow>
      probe_gbm_format (Some formats) X Y p = Some (True, p\<lparr>gbm_format := Y\<rparr>)) \<and>
   (X \<notin> set formats \<and> Y \<notin> set formats \<longrightarrow>
      probe_gbm_format (Some formats) X Y p = Some (False, p))"
  by (auto simp: probe_gbm_format_def scan_formats_eq)

theorem probe_gbm_format_selection_witness:
  "probe_gbm_format (Some [0x34325258, 0x34325241]) 0x34325241 0x34325258 init_state =
     Some (True, init_state\<lparr>gbm_format := 0x34325241\<rparr>) \<and>
   probe_gbm_format (Some [0x36314752, 0x34325258]) 0x34325241 0x34325258 init_state =
     Some (True, init_state\<lparr>gbm_format := 0x34325258\<rparr>) \<and>
   probe_gbm_format (Some [0x36314752]) 0x34325241 0x34325258 init_state =
     Some (False, init_state)"
  using probe_gbm_format_selection [of "0x34325241" "[0x34325258, 0x34325241]" "0x34325258" init_state]
    probe_gbm_format_selection [of "0x34325241" "[0x36314752, 0x34325258]" "0x34325258" init_state]
    probe_gbm_format_selection [of "0x34325241" "[0x36314752]" "0x34325258" init_state]
  by simp

subsection \<open>What the property calls change\<close>

lemma set_property_state:
  "snd (snd (drm_object_set_property req obj name v p)) =
     p\<lparr>env := (env p)\<lparr>set_property := stl (set_property (env p))\<rparr>\<rparr>"
  by (simp add: drm_object_set_property_def Let_def split: option.splits)

lemma set_properties_state:
  "snd (drm_object_set_properties req obj xs p) =
     p\<lparr>env := (env p)\<lparr>set_property := sdrop (length xs) (set_property (env p))\<rparr>\<rparr>"
proof (induction xs arbitrary: req p)
  case Nil
  show ?case by simp
next
  case (Cons x xs)
  obtain name v where x: "x = (name, v)" by (cases x)
  obtain ret req' p' where r: "drm_object_set_property req obj name v p = (ret, req', p')"
    by (cases "drm_object_set_property req obj name v p")
  from r set_property_state [of req obj name v p]
  have p': "p' = p\<lparr>env := (env p)\<lparr>set_property := stl (set_property (env p))\<rparr>\<rparr>" by simp
  show ?case using Cons.IH [of req' p'] by (simp add: x r p')
qed

subsection \<open>Order of release\<close>

lemma queued_enqueue: "queued (enqueue_bo (Some b) p) = queued p @ [b]"
  by (simp add: queued_def enqueue_bo_def Let_def map_filter_simps List.map_filter_def)

lemma released_enqueue: "released (enqueue_bo b p) = released p"
  by (simp add: enqueue_bo_def Let_def)

lemma swapchain_step_fifo:
  "swapchain_step p = Some p' \<Longrightarrow> released p' @ queued p' = released p @ queued p"
  by (cases "bo_queue p")
     (auto simp: swapchain_step_def dequeue_bo_def num_bos_def queued_def map_filter_simps
        gbm_surface_release_buffer_def split: option.splits)

lemma queue_run_fifo:
  "queue_run ops p = Some p' \<Longrightarrow> released p' @ queued p' = released p @ queued p @ submitted ops"
proof (induction ops arbitrary: p)
  case Nil
  then show ?case by simp
next
  case (Cons x xs)
  then obtain p1 where s: "queue_step x p = Some p1" and r: "queue_run xs p1 = Some p'"
    by (auto split: option.splits)
  have "released p1 @ queued p1 @ submitted xs = released p @ queued p @ submitted (x # xs)"
  proof (cases x)
    case (Enqueue b)
    with s show ?thesis by (auto simp: queued_enqueue released_enqueue)
  next
    case Retire
    with s have "released p1 @ queued p1 = released p @ queued p"
      by (simp add: swapchain_step_fifo)
    with Retire show ?thesis by (metis append.assoc submitted.simps(3))
  qed
  with Cons.IH [OF r] show ?case by simp
qed

subsection \<open>Session setup and teardown\<close>

lemma crtc_setup_active:
  "crtc_setup p = Some (r, p1) \<Longrightarrow> active p1 \<and> length (commits p1) \<le> Suc (length (commits p))"
  unfolding crtc_setup_def
  by (auto simp: Let_def case_prod_beta set_property_state set_properties_state
      drm_atomic_save_old_state_def drmModeAtomicAlloc_def drm_mode_ensure_blob_def
      drmModeAtomicCommit_def split: if_splits option.splits)

lemma crtc_release_inactive: "\<not> active (crtc_release p)"
  unfolding crtc_release_def
  by (auto simp: Let_def case_prod_beta drmModeAtomicAlloc_def drm_atomic_restore_old_state_def
      drmModeAtomicCommit_def split: if_splits option.splits)

lemma crtc_setup_second_call:
  "crtc_setup p = Some (r, p1) \<Longrightarrow> crtc_setup p1 = Some (True, p1)"
  using crtc_setup_active [of p r p1] by (simp add: crtc_setup_def)

lemma set_property_ret:
  "fst (drm_object_set_property req obj name v p) = shd (set_property (env p))"
  by (simp add: drm_object_set_property_def Let_def split: option.splits)

lemma set_property_req:
  "req \<noteq> None \<Longrightarrow> fst (snd (drm_object_set_property req obj name v p)) \<noteq> None"
  by (auto simp: drm_object_set_property_def Let_def split: option.splits)

lemma ensure_blob_result:
  "fst (drm_mode_ensure_blob p) = (shd (ensure_blob (env p)) \<noteq> None)"
  "fb (snd (drm_mode_ensure_blob p)) = fb p"
  "commits (snd (drm_mode_ensure_blob p)) = commits p"
  "active (snd (drm_mode_ensure_blob p)) = active p"
  "waiting_for_flip (snd (drm_mode_ensure_blob p)) = waiting_for_flip p"
  "cfg (snd (drm_mode_ensure_blob p)) = cfg p"
  "set_property (env (snd (drm_mode_ensure_blob p))) = set_property (env p)"
  "atomic_commit (env (snd (drm_mode_ensure_blob p))) = atomic_commit (env p)"
  by (simp_all add: drm_mode_ensure_blob_def Let_def split: option.splits)

lemma crtc_setup_commits_once:
  assumes "\<not> active p" and "setup_reaches_commit p" and "fb p \<noteq> None"
  shows "\<exists>p1 c. crtc_setup p = Some (shd (atomic_commit (env p)) = 0, p1) \<and> active p1 \<and>
           commits p1 = commits p @ [c] \<and> c_flags c = [ALLOW_MODESET] \<and> c_data c = None"
proof -
  from assms(3) obtain f where f: "fb p = Some f" by auto
  show ?thesis
    using assms(1,2) f unfolding crtc_setup_def setup_reaches_commit_def
    by (simp add: Let_def case_prod_beta set_property_state set_properties_state
        set_property_ret ensure_blob_result drm_atomic_save_old_state_def
        drmModeAtomicAlloc_def drmModeAtomicCommit_def
        del: drm_object_set_properties.simps)
qed


lemma crtc_setup_commits_none:
  assumes "\<not> active p" and "\<not> setup_reaches_commit p"
  shows "\<exists>p1. crtc_setup p = Some (False, p1) \<and> active p1 \<and> commits p1 = commits p"
proof -
  let ?a = "shd (atomic_alloc (env p))"
  let ?r1 = "shd (set_property (env p))"
  let ?b = "shd (ensure_blob (env p))"
  let ?r2 = "shd (stl (set_property (env p)))"
  let ?r3 = "shd (stl (stl (set_property (env p))))"
  from assms(2) consider "\<not> ?a" | "?a" "?r1 < 0" | "?a" "0 \<le> ?r1" "?b = None"
    | "?a" "0 \<le> ?r1" "?b \<noteq> None" "?r2 < 0"
    | "?a" "0 \<le> ?r1" "?b \<noteq> None" "0 \<le> ?r2" "?r3 < 0"
    unfolding setup_reaches_commit_def by force
  then show ?thesis
    using assms(1) unfolding crtc_setup_def
    by cases
      (simp_all add: Let_def case_prod_beta set_property_state set_property_ret
        ensure_blob_result drm_atomic_save_old_state_def drmModeAtomicAlloc_def)
qed

lemma crtc_release_commits_once:
  assumes "release_reaches_commit p"
  shows "\<exists>c. commits (crtc_release p) = commits p @ [c] \<and> c_flags c = [ALLOW_MODESET] \<and>
           c_data c = None"
  using assms unfolding crtc_release_def release_reaches_commit_def
  by (simp add: Let_def case_prod_beta drmModeAtomicAlloc_def drm_atomic_restore_old_state_def
      drmModeAtomicCommit_def)

lemma crtc_release_commits_none:
  assumes "\<not> release_reaches_commit p"
  shows "commits (crtc_release p) = commits p"
  using assms unfolding crtc_release_def release_reaches_commit_def
  by (auto simp: Let_def case_prod_beta drmModeAtomicAlloc_def)

text \<open>C5, as amended. Once \<^verbatim>\<open>crtc_setup\<close> has returned, a second call without a
  teardown in between returns true and changes nothing; a second \<^verbatim>\<open>crtc_release\<close>
  without a setup in between changes nothing either. The first \<^verbatim>\<open>crtc_setup\<close> on an
  inactive session makes the modeset commit exactly once when it reaches it (the request
  is allocated, the mode blob is there, \<^verbatim>\<open>CRTC_ID\<close>, \<^verbatim>\<open>MODE_ID\<close> and \<^verbatim>\<open>ACTIVE\<close>
  are set), and returns whether the commit succeeded; when it fails before, it returns
  false with no commit made, and the session counts as active all the same. The first
  \<^verbatim>\<open>crtc_release\<close> makes the restore commit exactly once when the session is active,
  the old state was saved and the request is allocated, and no commit otherwise. So two
  calls make the commit once, or not at all.\<close>

theorem session_idempotent:
  "(\<forall>r p1. crtc_setup p = Some (r, p1) \<longrightarrow> crtc_setup p1 = Some (True, p1)) \<and>
   (\<not> active p \<and> setup_reaches_commit p \<and> fb p \<noteq> None \<longrightarrow>
      (\<exists>p1 c. crtc_setup p = Some (shd (atomic_commit (env p)) = 0, p1) \<and> active p1 \<and>
         commits p1 = commits p @ [c] \<and> c_flags c = [ALLOW_MODESET] \<and> c_data c = None)) \<and>
   (\<not> active p \<and> \<not> setup_reaches_commit p \<longrightarrow>
      (\<exists>p1. crtc_setup p = Some (False, p1) \<and> active p1 \<and> commits p1 = commits p)) \<and>
   crtc_release (crtc_release p) = crtc_release p \<and>
   \<not> active (crtc_release p) \<and>
   (release_reaches_commit p \<longrightarrow>
      (\<exists>c. commits (crtc_release p) = commits p @ [c] \<and> c_flags c = [ALLOW_MODESET] \<and>
         c_data c = None)) \<and>
   (\<not> release_reaches_commit p \<longrightarrow> commits (crtc_release p) = commits p)"
proof -
  have "crtc_release (crtc_release p) = crtc_release p"
    using crtc_release_inactive [of p] by (simp add: crtc_release_def [of "crtc_release p"])
  then show ?thesis
    using crtc_setup_second_call [of p] crtc_setup_commits_once [of p]
      crtc_setup_commits_none [of p] crtc_release_inactive [of p]
      crtc_release_commits_once [of p] crtc_release_commits_none [of p]
    by blast
qed

theorem session_idempotent_witness:
  "\<not> active (init_state\<lparr>active := False\<rparr>) \<and>
   setup_reaches_commit (init_state\<lparr>active := False\<rparr>) \<and>
   fb (init_state\<lparr>active := False\<rparr>) \<noteq> None \<and>
   (\<exists>p1 c. crtc_setup (init_state\<lparr>active := False\<rparr>) = Some (True, p1) \<and>
      crtc_setup p1 = Some (True, p1) \<and> active p1 \<and> commits p1 = [c] \<and>
      c_flags c = [ALLOW_MODESET]) \<and>
   \<not> active (init_state\<lparr>active := False, env := env0\<lparr>atomic_alloc := sconst False\<rparr>\<rparr>) \<and>
   \<not> setup_reaches_commit
       (init_state\<lparr>active := False, env := env0\<lparr>atomic_alloc := sconst False\<rparr>\<rparr>) \<and>
   (\<exists>p1. crtc_setup (init_state\<lparr>active := False, env := env0\<lparr>atomic_alloc := sconst False\<rparr>\<rparr>) =
           Some (False, p1) \<and> commits p1 = []) \<and>
   release_reaches_commit init_state \<and>
   (\<exists>c. commits (crtc_release init_state) = [c] \<and> c_flags c = [ALLOW_MODESET]) \<and>
   crtc_release (crtc_release init_state) = crtc_release init_state \<and>
   \<not> release_reaches_commit (init_state\<lparr>old_state_saved := False\<rparr>) \<and>
   commits (crtc_release (init_state\<lparr>old_state_saved := False\<rparr>)) = []"
proof -
  let ?s = "init_state\<lparr>active := False\<rparr>"
  let ?f = "init_state\<lparr>active := False, env := env0\<lparr>atomic_alloc := sconst False\<rparr>\<rparr>"
  let ?n = "init_state\<lparr>old_state_saved := False\<rparr>"
  have hs: "\<not> active ?s" "setup_reaches_commit ?s" "fb ?s \<noteq> None"
    "shd (atomic_commit (env ?s)) = 0" "commits ?s = []"
    by (simp_all add: setup_reaches_commit_def init_state_def env0_def)
  have hf: "\<not> active ?f" "\<not> setup_reaches_commit ?f" "commits ?f = []"
    by (simp_all add: setup_reaches_commit_def init_state_def)
  have hr: "release_reaches_commit init_state" "commits init_state = []"
    "\<not> release_reaches_commit ?n" "commits ?n = []"
    by (simp_all add: release_reaches_commit_def init_state_def env0_def)
  note ts = session_idempotent [of ?s]
  from ts hs obtain p1 c where s1: "crtc_setup ?s = Some (True, p1)" "active p1"
    "commits p1 = [c]" "c_flags c = [ALLOW_MODESET]"
    by auto
  from ts s1(1) have s2: "crtc_setup p1 = Some (True, p1)" by blast
  from session_idempotent [of ?f] hf obtain q1 where
    f1: "crtc_setup ?f = Some (False, q1)" "commits q1 = []"
    by auto
  from session_idempotent [of init_state] hr(1,2) obtain d where
    r1: "commits (crtc_release init_state) = [d]" "c_flags d = [ALLOW_MODESET]"
    and r2: "crtc_release (crtc_release init_state) = crtc_release init_state"
    by auto
  from session_idempotent [of ?n] hr(3,4) have n1: "commits (crtc_release ?n) = []"
    by simp
  from hs(1-3) hf(1,2) hr(1,3) s1 s2 f1 r1 r2 n1 show ?thesis by blast
qed

text \<open>The claim as stated fails when the request cannot be allocated: two calls of
  \<^verbatim>\<open>crtc_setup\<close> make no commit, and the second returns true; two calls of
  \<^verbatim>\<open>crtc_release\<close> make no commit either. So it is in the execution that releases the
  VT twice and then acquires it twice.\<close>

theorem session_idempotent_counterexample:
  "map_option fst
     (Option.bind
        (crtc_setup (init_state\<lparr>active := False, env := env0\<lparr>atomic_alloc := sconst False\<rparr>\<rparr>))
        (crtc_setup \<circ> snd)) = Some True \<and>
   map_option (length \<circ> commits \<circ> snd)
     (Option.bind
        (crtc_setup (init_state\<lparr>active := False, env := env0\<lparr>atomic_alloc := sconst False\<rparr>\<rparr>))
        (crtc_setup \<circ> snd)) = Some 0 \<and>
   length (commits (crtc_release (crtc_release
      (init_state\<lparr>env := env0\<lparr>atomic_alloc := sconst False\<rparr>\<rparr>)))) = 0 \<and>
   map_option (length \<circ> commits)
     (exec [Release_vt, Release_vt, Acquire_vt, Acquire_vt]
        (init_state\<lparr>env := env0\<lparr>atomic_alloc := sconst False\<rparr>\<rparr>)) = Some 0 \<and>
   map_option active
     (exec [Release_vt, Release_vt, Acquire_vt, Acquire_vt]
        (init_state\<lparr>env := env0\<lparr>atomic_alloc := sconst False\<rparr>\<rparr>)) = Some True"
  by (simp add: acquire_vt_def release_vt_def crtc_setup_def crtc_release_def init_state_def
      env0_def ext_defs Let_def)

subsection \<open>Queueing a flip\<close>

lemma update_framebuffer_fb: "fb (update_framebuffer_from_bo b p) \<noteq> None"
  by (simp add: update_framebuffer_from_bo_def drmModeAddFB2_def Let_def split: option.splits)

lemma update_framebuffer_frame:
  "closures (update_framebuffer_from_bo b p) = closures p"
  "commits (update_framebuffer_from_bo b p) = commits p"
  "waiting_for_flip (update_framebuffer_from_bo b p) = waiting_for_flip p"
  "atomic_commit (env (update_framebuffer_from_bo b p)) = atomic_commit (env p)"
  "atomic_alloc (env (update_framebuffer_from_bo b p)) = atomic_alloc (env p)"
  "poll_events (env (update_framebuffer_from_bo b p)) = poll_events (env p)"
  "bo_queue (update_framebuffer_from_bo b p) = bo_queue p"
  "vsync_fences (update_framebuffer_from_bo b p) = vsync_fences p"
  "released (update_framebuffer_from_bo b p) = released p"
  "cfg (update_framebuffer_from_bo b p) = cfg p"
  "active (update_framebuffer_from_bo b p) = active p"
  by (simp_all add: update_framebuffer_from_bo_def drmModeAddFB2_def Let_def split: option.splits)

text \<open>C6, as amended. \<^verbatim>\<open>queue_flip\<close> on a frame with a buffer returns. If the commit
  fails, the closure is discarded and \<^verbatim>\<open>waiting_for_flip\<close> is false; if it succeeds,
  the closure stays with the kernel and \<^verbatim>\<open>waiting_for_flip\<close> is true. In both cases the
  request is freed and replaced by the result of a new \<^verbatim>\<open>drmModeAtomicAlloc\<close>: a fresh
  empty request when the allocation succeeds, NULL when it fails.\<close>

theorem queue_flip_outcome:
  "bo frame \<noteq> None \<Longrightarrow>
   \<exists>p'. queue_flip frame p = Some p' \<and>
     (shd (atomic_commit (env p)) \<noteq> 0 \<longrightarrow>
        closures p' = closures p \<and> \<not> waiting_for_flip p') \<and>
     (shd (atomic_commit (env p)) = 0 \<longrightarrow>
        closures p' = closures p @ [frame_vsync frame] \<and> waiting_for_flip p') \<and>
     request p' = (if shd (atomic_alloc (env p)) then Some [] else None)"
  unfolding queue_flip_def
  using update_framebuffer_fb [of "the (bo frame)" p]
  by (auto simp: Let_def case_prod_beta set_properties_state update_framebuffer_frame
      drmModeAtomicCommit_def drmModeAtomicAlloc_def simp del: drm_object_set_properties.simps
      split: option.splits)

theorem queue_flip_outcome_witness:
  "bo \<lparr>bo = Some 1, frame_vsync = stamp 1\<rparr> \<noteq> None \<and>
   (\<exists>p'. queue_flip \<lparr>bo = Some 1, frame_vsync = stamp 1\<rparr> init_state = Some p' \<and>
         closures p' = [stamp 1] \<and> waiting_for_flip p' \<and> request p' = Some []) \<and>
   (\<exists>p'. queue_flip \<lparr>bo = Some 1, frame_vsync = stamp 1\<rparr>
           (init_state\<lparr>env := env0\<lparr>atomic_commit := sconst (- 22)\<rparr>\<rparr>) = Some p' \<and>
         closures p' = [] \<and> \<not> waiting_for_flip p' \<and> request p' = Some [])"
  using queue_flip_outcome [of "\<lparr>bo = Some 1, frame_vsync = stamp 1\<rparr>" init_state]
    queue_flip_outcome [of "\<lparr>bo = Some 1, frame_vsync = stamp 1\<rparr>"
      "init_state\<lparr>env := env0\<lparr>atomic_commit := sconst (- 22)\<rparr>\<rparr>"]
  by (simp add: init_state_def env0_def)

text \<open>The claim as stated fails when the allocation fails: the request is then NULL,
  not a fresh empty request.\<close>

theorem queue_flip_fresh_request_counterexample:
  "map_option request
     (queue_flip \<lparr>bo = Some 1, frame_vsync = stamp 1\<rparr>
        (init_state\<lparr>env := env0\<lparr>atomic_alloc := sconst False\<rparr>\<rparr>)) = Some None"
  by (simp add: run_simps)


subsection \<open>Waiting for a flip\<close>

lemma wait_on_flip_preserves:
  assumes run: "wait_on_flip p = Some p'"
    and g_env: "\<And>q s. g (q\<lparr>env := (env q)\<lparr>poll_events := s\<rparr>\<rparr>) = g q"
    and g_cb: "\<And>q v. g (drm_pflip_cb v q) = g q"
  shows "g p' = g p"
proof (rule wait_on_flip.raw_induct [where P = "\<lambda>p p'. g p' = g p", OF _ run])
  fix w p p'
  assume IH: "\<And>x y. w x = Some y \<Longrightarrow> g y = g x"
    and body: "(if waiting_for_flip p then
                  (case poll p of
                     (ev, p1) \<Rightarrow>
                       if POLLIN ev then
                         (case drmHandleEvent ev p1 of
                            (ret, p2) \<Rightarrow> if ret \<noteq> 0 then Some p2 else w p2)
                       else w p1)
                else Some p) = Some p'"
  let ?p1 = "p\<lparr>env := (env p)\<lparr>poll_events := stl (poll_events (env p))\<rparr>\<rparr>"
  have g1: "g ?p1 = g p" by (rule g_env)
  show "g p' = g p"
  proof (cases "waiting_for_flip p")
    case False
    with body show ?thesis by simp
  next
    case True
    show ?thesis
    proof (cases "shd (poll_events (env p))")
      case Poll_timeout
      with True body have "w ?p1 = Some p'" by (simp add: poll_def POLLIN_def)
      from IH [OF this] g1 show ?thesis by simp
    next
      case (Flip_event v)
      with True body have "w (drm_pflip_cb v ?p1) = Some p'"
        by (simp add: poll_def POLLIN_def drmHandleEvent_def)
      from IH [OF this] g1 g_cb [of v ?p1] show ?thesis by simp
    next
      case Other_event
      with True body have "w ?p1 = Some p'"
        by (simp add: poll_def POLLIN_def drmHandleEvent_def)
      from IH [OF this] g1 show ?thesis by simp
    next
      case Event_error
      with True body have "p' = ?p1"
        by (simp add: poll_def POLLIN_def drmHandleEvent_def)
      with g1 show ?thesis by simp
    qed
  qed
qed

lemma wait_on_flip_frame:
  assumes "wait_on_flip p = Some p'"
  shows "bo_queue p' = bo_queue p" "vsync_fences p' = vsync_fences p"
    "commits p' = commits p" "released p' = released p" "cfg p' = cfg p"
    "active p' = active p" "request p' = request p" "paused p' = paused p" "still p' = still p"
    "atomic_commit (env p') = atomic_commit (env p)"
    "atomic_alloc (env p') = atomic_alloc (env p)"
  by (rule wait_on_flip_preserves [OF assms], simp_all add: drm_pflip_cb_def)+

lemma dispatch_never_fails_stl:
  "dispatch_never_fails p \<Longrightarrow>
     shd (poll_events (env p)) \<noteq> Event_error \<and>
     dispatch_never_fails (p\<lparr>env := (env p)\<lparr>poll_events := stl (poll_events (env p))\<rparr>\<rparr>)"
  unfolding dispatch_never_fails_def
  using shd_sset [of "poll_events (env p)"] by (auto dest: stl_sset)

lemma wait_on_flip_done:
  assumes run: "wait_on_flip p = Some p'" and d: "dispatch_never_fails p"
  shows "\<not> waiting_for_flip p' \<and> dispatch_never_fails p'"
proof -
  have "dispatch_never_fails p \<longrightarrow> \<not> waiting_for_flip p' \<and> dispatch_never_fails p'"
  proof (rule wait_on_flip.raw_induct
      [where P = "\<lambda>p p'. dispatch_never_fails p \<longrightarrow> \<not> waiting_for_flip p' \<and> dispatch_never_fails p'",
        OF _ run])
    fix w p p'
    assume IH: "\<And>x y. w x = Some y \<Longrightarrow>
                  dispatch_never_fails x \<longrightarrow> \<not> waiting_for_flip y \<and> dispatch_never_fails y"
      and body: "(if waiting_for_flip p then
                    (case poll p of
                       (ev, p1) \<Rightarrow>
                         if POLLIN ev then
                           (case drmHandleEvent ev p1 of
                              (ret, p2) \<Rightarrow> if ret \<noteq> 0 then Some p2 else w p2)
                         else w p1)
                  else Some p) = Some p'"
    let ?p1 = "p\<lparr>env := (env p)\<lparr>poll_events := stl (poll_events (env p))\<rparr>\<rparr>"
    show "dispatch_never_fails p \<longrightarrow> \<not> waiting_for_flip p' \<and> dispatch_never_fails p'"
    proof
      assume dp: "dispatch_never_fails p"
      from dispatch_never_fails_stl [OF dp]
      have ne: "shd (poll_events (env p)) \<noteq> Event_error" and d1: "dispatch_never_fails ?p1"
        by simp_all
      show "\<not> waiting_for_flip p' \<and> dispatch_never_fails p'"
      proof (cases "waiting_for_flip p")
        case False
        with body dp show ?thesis by simp
      next
        case True
        show ?thesis
        proof (cases "shd (poll_events (env p))")
          case Poll_timeout
          with True body have "w ?p1 = Some p'" by (simp add: poll_def POLLIN_def)
          from IH [OF this] d1 show ?thesis by simp
        next
          case (Flip_event v)
          with True body have "w (drm_pflip_cb v ?p1) = Some p'"
            by (simp add: poll_def POLLIN_def drmHandleEvent_def)
          moreover from d1 have "dispatch_never_fails (drm_pflip_cb v ?p1)"
            by (simp add: dispatch_never_fails_def drm_pflip_cb_def)
          ultimately show ?thesis using IH by blast
        next
          case Other_event
          with True body have "w ?p1 = Some p'"
            by (simp add: poll_def POLLIN_def drmHandleEvent_def)
          from IH [OF this] d1 show ?thesis by simp
        next
          case Event_error
          with ne show ?thesis by simp
        qed
      qed
    qed
  qed
  with d show ?thesis by simp
qed

subsection \<open>One pass of the loop\<close>

lemma swapchain_step_frame:
  assumes "swapchain_step p = Some p'"
  shows "bo_queue p' = tl (bo_queue p)" "vsync_fences p' = vsync_fences p"
    "commits p' = commits p" "waiting_for_flip p' = waiting_for_flip p" "env p' = env p"
    "cfg p' = cfg p" "active p' = active p" "closures p' = closures p"
  using assms
  by (cases "bo_queue p";
      auto simp: swapchain_step_def dequeue_bo_def num_bos_def gbm_surface_release_buffer_def
        split: option.splits)+

lemma queue_flip_frame:
  assumes "queue_flip frame p = Some p'"
  shows "bo_queue p' = bo_queue p" "vsync_fences p' = vsync_fences p"
    "released p' = released p" "cfg p' = cfg p" "active p' = active p"
    "poll_events (env p') = poll_events (env p)"
    "waiting_for_flip p' = (shd (atomic_commit (env p)) = 0)"
    "\<exists>c. commits p' = commits p @ [c] \<and> c_flags c = [NONBLOCK, PAGE_FLIP_EVENT] \<and>
          c_pending c = waiting_for_flip p"
  using assms unfolding queue_flip_def
  by (auto simp: Let_def case_prod_beta set_properties_state update_framebuffer_frame
      drmModeAtomicCommit_def drmModeAtomicAlloc_def simp del: drm_object_set_properties.simps
      split: option.splits if_splits)

lemma finish_pending_flip_frame:
  assumes "finish_pending_flip p = Some p1"
  shows "commits p1 = commits p" "vsync_fences p1 = vsync_fences p" "cfg p1 = cfg p"
    "active p1 = active p"
  using assms
  by (auto simp: finish_pending_flip_def bind_eq_Some_conv wait_on_flip_frame
      swapchain_step_frame split: if_splits)

lemma finish_pending_flip_done:
  assumes "finish_pending_flip p = Some p1" and "dispatch_never_fails p"
  shows "\<not> waiting_for_flip p1" "dispatch_never_fails p1"
  using assms
  by (auto simp: finish_pending_flip_def bind_eq_Some_conv swapchain_step_frame
      dispatch_never_fails_def dest: wait_on_flip_done split: if_splits)

lemma swap_iteration_break:
  assumes "swap_iteration p = Some (Break q)"
  shows "num_bos q \<le> 1" "dispatch_never_fails p \<Longrightarrow> \<not> waiting_for_flip q"
  using assms
  by (auto simp: swap_iteration_def finish_pending_flip_done split: option.splits if_splits)

lemma swap_iteration_dispatch:
  assumes "swap_iteration p = Some r" and "dispatch_never_fails p"
  shows "dispatch_never_fails (exit_state r)"
  using assms
  by (auto simp: swap_iteration_def dispatch_never_fails_def swapchain_step_frame
      queue_flip_frame dest: finish_pending_flip_done(2) split: option.splits if_splits)

lemma swap_iteration_flips:
  assumes "swap_iteration p = Some r" and "dispatch_never_fails p"
    and "\<not> list_ex flip_while_pending (commits p)"
  shows "\<not> list_ex flip_while_pending (commits (exit_state r))"
proof -
  from assms(1) obtain p1 where f: "finish_pending_flip p = Some p1"
    by (auto simp: swap_iteration_def split: option.splits)
  note c1 = finish_pending_flip_frame(1) [OF f] and w1 = finish_pending_flip_done(1) [OF f assms(2)]
  show ?thesis
  proof (cases "num_bos p1 \<le> 1")
    case True
    with assms(1) f have "r = Break p1" by (simp add: swap_iteration_def)
    with c1 assms(3) show ?thesis by simp
  next
    case False
    show ?thesis
    proof (cases "bo (bo_queue p1 ! 1) = None")
      case True
      with False assms(1) f obtain q where "swapchain_step p1 = Some q" "r = Continue q"
        by (auto simp: swap_iteration_def)
      with c1 assms(3) swapchain_step_frame(3) [of p1 q] show ?thesis by simp
    next
      case hole: False
      with False assms(1) f obtain q where q: "queue_flip (bo_queue p1 ! 1) p1 = Some q"
        and r: "r = Continue q"
        by (auto simp: swap_iteration_def)
      from queue_flip_frame(8) [OF q] obtain c where
        "commits q = commits p1 @ [c]" "c_pending c = waiting_for_flip p1" by blast
      with w1 c1 assms(3) r show ?thesis by (simp add: flip_while_pending_def)
    qed
  qed
qed

lemma loop_cond_frame:
  assumes "loop_cond drain p = (go, p0)"
  shows "commits p0 = commits p" "poll_events (env p0) = poll_events (env p)"
    "waiting_for_flip p0 = waiting_for_flip p" "bo_queue p0 = bo_queue p"
    "vsync_fences p0 = vsync_fences p" "drain \<Longrightarrow> go \<and> p0 = p"
  using assms
  by (auto simp: loop_cond_def gbm_surface_has_free_buffers_def Let_def split: if_splits)

subsection \<open>The loop and the whole swap\<close>

lemma swap_loop_inv:
  assumes run: "swap_loop drain p = Some p'"
  shows "(dispatch_never_fails p \<longrightarrow>
            dispatch_never_fails p' \<and>
            (\<not> list_ex flip_while_pending (commits p) \<longrightarrow>
               \<not> list_ex flip_while_pending (commits p')) \<and>
            (drain \<longrightarrow> \<not> waiting_for_flip p')) \<and>
         (drain \<longrightarrow> num_bos p' \<le> 1)"
    (is "?P drain p p'")
proof (rule swap_loop.raw_induct [where P = ?P, OF _ run])
  fix sl drain p p'
  assume IH: "\<And>d x y. sl d x = Some y \<Longrightarrow> ?P d x y"
    and body: "(case loop_cond drain p of
                  (go, p0) \<Rightarrow>
                    if go then
                      (case swap_iteration p0 of
                         None \<Rightarrow> None
                       | Some (Break p1) \<Rightarrow> Some p1
                       | Some (Continue p1) \<Rightarrow> sl drain p1)
                    else Some p0) = Some p'"
  obtain go p0 where lc: "loop_cond drain p = (go, p0)" by (cases "loop_cond drain p")
  note fr = loop_cond_frame [OF lc]
  have d0: "dispatch_never_fails p0 = dispatch_never_fails p"
    by (simp add: dispatch_never_fails_def fr(2))
  show "?P drain p p'"
  proof (cases go)
    case False
    with body lc have "p' = p0" by simp
    moreover from False fr(6) have "\<not> drain" by blast
    ultimately show ?thesis using d0 fr(1) by simp
  next
    case True
    with body lc obtain r where it: "swap_iteration p0 = Some r"
      by (auto split: option.splits)
    show ?thesis
    proof (cases r)
      case (Break q)
      with True body lc it have "p' = q" by simp
      with Break it swap_iteration_break [of p0 p'] swap_iteration_dispatch [of p0 r]
        swap_iteration_flips [of p0 r] d0 fr(1)
      show ?thesis by auto
    next
      case (Continue q)
      with True body lc it have "sl drain q = Some p'" by simp
      from IH [OF this] Continue it swap_iteration_dispatch [of p0 r]
        swap_iteration_flips [of p0 r] d0 fr(1)
      show ?thesis by auto
    qed
  qed
qed

lemma wait_fence_preserves:
  assumes "\<And>q fs. g (q\<lparr>vsync_fences := fs\<rparr>) = g q"
  shows "g (wait_fence p) = g p"
proof (induction p rule: wait_fence.induct)
  case (1 p)
  then show ?case by (subst wait_fence.simps) (auto simp: assms)
qed

lemma wait_fence_frame:
  "commits (wait_fence p) = commits p" "env (wait_fence p) = env p"
  "active (wait_fence p) = active p" "bo_queue (wait_fence p) = bo_queue p"
  "waiting_for_flip (wait_fence p) = waiting_for_flip p" "cfg (wait_fence p) = cfg p"
  "paused (wait_fence p) = paused p" "still (wait_fence p) = still p"
  by (rule wait_fence_preserves, simp)+

text \<open>The state in which \<^verbatim>\<open>drm_egl_swap_buffers\<close> enters its loop.\<close>

lemma swap_buffers_loop:
  assumes "drm_egl_swap_buffers p = Some p'" and "active p"
    and "shd (lock_front_buffer (env p)) \<noteq> None"
  shows "\<exists>q. swap_loop (paused p \<or> still p) q = Some p' \<and> commits q = commits p \<and>
           poll_events (env q) = poll_events (env p)"
  using assms
  by (auto simp: drm_egl_swap_buffers_def Let_def case_prod_beta wait_fence_frame
      gbm_surface_lock_front_buffer_def new_fence_def FenceSync_def enqueue_bo_def
      split: option.splits if_splits)

lemma swap_buffers_no_loop:
  assumes "drm_egl_swap_buffers p = Some p'"
    and "\<not> active p \<or> shd (lock_front_buffer (env p)) = None"
  shows "commits p' = commits p \<and> poll_events (env p') = poll_events (env p)"
  using assms
  by (auto simp: drm_egl_swap_buffers_def Let_def case_prod_beta wait_fence_frame
      gbm_surface_lock_front_buffer_def split: option.splits if_splits)

lemma swap_buffers_inv:
  assumes run: "drm_egl_swap_buffers p = Some p'" and d: "dispatch_never_fails p"
  shows "dispatch_never_fails p'"
    "\<not> list_ex flip_while_pending (commits p) \<Longrightarrow> \<not> list_ex flip_while_pending (commits p')"
proof -
  have "dispatch_never_fails p' \<and>
        (\<not> list_ex flip_while_pending (commits p) \<longrightarrow> \<not> list_ex flip_while_pending (commits p'))"
  proof (cases "active p \<and> shd (lock_front_buffer (env p)) \<noteq> None")
    case True
    with swap_buffers_loop [OF run] obtain q where
      q: "swap_loop (paused p \<or> still p) q = Some p'" "commits q = commits p"
        "poll_events (env q) = poll_events (env p)" by blast
    from q(3) d have "dispatch_never_fails q" by (simp add: dispatch_never_fails_def)
    with swap_loop_inv [OF q(1)] q(2) show ?thesis by simp
  next
    case False
    with swap_buffers_no_loop [OF run] d show ?thesis
      by (auto simp: dispatch_never_fails_def)
  qed
  then show "dispatch_never_fails p'"
    "\<not> list_ex flip_while_pending (commits p) \<Longrightarrow> \<not> list_ex flip_while_pending (commits p')"
    by simp_all
qed

subsection \<open>Order of release in the engine\<close>

lemma wait_on_flip_fifo:
  assumes "wait_on_flip p = Some p'"
  shows "fifo_ok p' = fifo_ok p"
proof -
  have "(released p', bo_queue p', locked p') = (released p, bo_queue p, locked p)"
    by (rule wait_on_flip_preserves [OF assms]) (simp_all add: drm_pflip_cb_def)
  then show ?thesis by (simp add: fifo_ok_def queued_def)
qed

lemma swapchain_step_locked:
  "swapchain_step p = Some p' \<Longrightarrow> locked p' = locked p"
  by (cases "bo_queue p")
     (auto simp: swapchain_step_def dequeue_bo_def num_bos_def gbm_surface_release_buffer_def
        split: option.splits)

lemma swapchain_step_fifo_ok:
  "swapchain_step p = Some p' \<Longrightarrow> fifo_ok p \<Longrightarrow> fifo_ok p'"
  using swapchain_step_fifo [of p p'] swapchain_step_locked [of p p']
  by (simp add: fifo_ok_def)

lemma queue_flip_fifo_ok:
  assumes "queue_flip frame p = Some p'" and "fifo_ok p"
  shows "fifo_ok p'"
proof -
  from assms(1) have "locked p' = locked p"
    unfolding queue_flip_def
    by (auto simp: Let_def case_prod_beta set_properties_state update_framebuffer_from_bo_def
        drmModeAddFB2_def drmModeAtomicCommit_def drmModeAtomicAlloc_def
        simp del: drm_object_set_properties.simps split: option.splits if_splits)
  with queue_flip_frame(1,3) [OF assms(1)] assms(2) show ?thesis
    by (simp add: fifo_ok_def queued_def)
qed

lemma swap_iteration_fifo_ok:
  assumes "swap_iteration p = Some r" and "fifo_ok p"
  shows "fifo_ok (exit_state r)"
proof -
  from assms(1) obtain p1 where f: "finish_pending_flip p = Some p1"
    by (auto simp: swap_iteration_def split: option.splits)
  with assms(2) have f1: "fifo_ok p1"
    by (auto simp: finish_pending_flip_def bind_eq_Some_conv wait_on_flip_fifo
        dest: swapchain_step_fifo_ok split: if_splits)
  from assms(1) f f1 show ?thesis
    by (auto simp: swap_iteration_def dest: swapchain_step_fifo_ok queue_flip_fifo_ok
        split: if_splits)
qed

lemma swap_loop_fifo_ok:
  assumes run: "swap_loop drain p = Some p'"
  shows "fifo_ok p \<longrightarrow> fifo_ok p'"
proof (rule swap_loop.raw_induct [where P = "\<lambda>drain p p'. fifo_ok p \<longrightarrow> fifo_ok p'", OF _ run])
  fix sl drain p p'
  assume IH: "\<And>d x y. sl d x = Some y \<Longrightarrow> fifo_ok x \<longrightarrow> fifo_ok y"
    and body: "(case loop_cond drain p of
                  (go, p0) \<Rightarrow>
                    if go then
                      (case swap_iteration p0 of
                         None \<Rightarrow> None
                       | Some (Break p1) \<Rightarrow> Some p1
                       | Some (Continue p1) \<Rightarrow> sl drain p1)
                    else Some p0) = Some p'"
  obtain go p0 where lc: "loop_cond drain p = (go, p0)" by (cases "loop_cond drain p")
  then have f0: "fifo_ok p0 = fifo_ok p"
    by (auto simp: loop_cond_def gbm_surface_has_free_buffers_def fifo_ok_def queued_def
        Let_def split: if_splits)
  show "fifo_ok p \<longrightarrow> fifo_ok p'"
  proof (cases go)
    case False
    with body lc f0 show ?thesis by simp
  next
    case True
    with body lc obtain r where it: "swap_iteration p0 = Some r"
      by (auto split: option.splits)
    show ?thesis
    proof (cases r)
      case (Break q)
      with True body lc it swap_iteration_fifo_ok [OF it] f0 show ?thesis by auto
    next
      case (Continue q)
      with True body lc it have "sl drain q = Some p'" by simp
      from IH [OF this] Continue swap_iteration_fifo_ok [OF it] f0 show ?thesis by auto
    qed
  qed
qed

lemma wait_fence_logs:
  "released (wait_fence p) = released p" "locked (wait_fence p) = locked p"
  by (rule wait_fence_preserves, simp)+

lemma swap_buffers_fifo_ok:
  assumes "drm_egl_swap_buffers p = Some p'" and "fifo_ok p"
  shows "fifo_ok p'"
proof (cases "active p \<and> shd (lock_front_buffer (env p)) \<noteq> None")
  case False
  with assms show ?thesis
    by (auto simp: drm_egl_swap_buffers_def Let_def case_prod_beta wait_fence_frame
        wait_fence_logs gbm_surface_lock_front_buffer_def fifo_ok_def queued_def
        split: if_splits)
next
  case True
  then obtain b where b: "shd (lock_front_buffer (env p)) = Some b" by auto
  let ?q = "new_fence (enqueue_bo (Some b) (snd (gbm_surface_lock_front_buffer (wait_fence p))))"
  from True b assms(1) have run: "swap_loop (paused p \<or> still p) ?q = Some p'"
    by (simp add: drm_egl_swap_buffers_def Let_def case_prod_beta
        gbm_surface_lock_front_buffer_def wait_fence_frame)
  from b assms(2) have "fifo_ok ?q"
    by (auto simp: fifo_ok_def queued_def new_fence_def FenceSync_def enqueue_bo_def Let_def
        gbm_surface_lock_front_buffer_def wait_fence_frame wait_fence_logs map_filter_simps
        List.map_filter_def split: option.splits)
  with swap_loop_fifo_ok [OF run] show ?thesis by simp
qed

lemma perform_fifo_ok:
  assumes "perform x p = Some p'" and "fifo_ok p"
  shows "fifo_ok p'"
proof (cases x)
  case Swap_buffers
  with assms swap_buffers_fifo_ok show ?thesis by simp
next
  case Acquire_vt
  with assms(1) obtain r where s: "crtc_setup p = Some (r, p')"
    by (auto simp: acquire_vt_def)
  then have "(released p', bo_queue p', locked p') = (released p, bo_queue p, locked p)"
    unfolding crtc_setup_def
    by (auto simp: Let_def case_prod_beta set_property_state set_properties_state
        drm_atomic_save_old_state_def drmModeAtomicAlloc_def drm_mode_ensure_blob_def
        drmModeAtomicCommit_def simp del: drm_object_set_properties.simps
        split: if_splits option.splits)
  with assms(2) show ?thesis by (simp add: fifo_ok_def queued_def)
next
  case Release_vt
  have "(released (crtc_release p), bo_queue (crtc_release p), locked (crtc_release p)) =
        (released p, bo_queue p, locked p)"
    unfolding crtc_release_def
    by (auto simp: Let_def case_prod_beta drmModeAtomicAlloc_def
        drm_atomic_restore_old_state_def drmModeAtomicCommit_def split: if_splits option.splits)
  with Release_vt assms show ?thesis by (auto simp: release_vt_def fifo_ok_def queued_def)
next
  case Start_frame
  with assms show ?thesis
    by (auto simp: drm_egl_start_frame_def drmModeAtomicAlloc_def fifo_ok_def queued_def
        Let_def split: if_splits)
next
  case (Submit_frame b)
  with assms show ?thesis by (auto simp: drm_egl_submit_frame_def fifo_ok_def queued_def)
next
  case (Control v)
  with assms show ?thesis by (cases v) (auto simp: fifo_ok_def queued_def)
qed

lemma exec_fifo_ok:
  "exec ops p = Some p' \<Longrightarrow> fifo_ok p \<Longrightarrow> fifo_ok p'"
proof (induction ops arbitrary: p)
  case Nil
  then show ?case by simp
next
  case (Cons x xs)
  from Cons.prems(1) obtain p1 where s: "perform x p = Some p1" and r: "exec xs p1 = Some p'"
    by (auto split: option.splits)
  from Cons.IH [OF r perform_fifo_ok [OF s Cons.prems(2)]] show ?case .
qed

text \<open>C7. Take any sequence of enqueues and retirements. \<^verbatim>\<open>enqueue_bo\<close> appends at
  the tail and \<^verbatim>\<open>swapchain_step\<close> removes the head, so at every moment the buffers
  released so far, followed by the buffers still queued, are the buffers released and
  queued at the start followed by the submitted ones, in the order of submission. Starting
  and ending with an empty queue, the buffers released are exactly the submitted ones in
  their order. The engine as a whole keeps this order: in every execution the buffers
  released, followed by the buffers queued, are the buffers locked from the surface, in
  the order in which they were locked.\<close>

theorem fifo_release_order:
  "(\<forall>p'. queue_run ops p = Some p' \<longrightarrow>
      released p' @ queued p' = released p @ queued p @ submitted ops \<and>
      (bo_queue p = [] \<and> released p = [] \<and> bo_queue p' = [] \<longrightarrow> released p' = submitted ops)) \<and>
   (\<forall>p'. exec xs p = Some p' \<and> fifo_ok p \<longrightarrow> fifo_ok p')"
proof (intro conjI allI impI)
  fix p'
  assume "queue_run ops p = Some p'"
  then show "released p' @ queued p' = released p @ queued p @ submitted ops"
    by (rule queue_run_fifo)
next
  fix p'
  assume "queue_run ops p = Some p'"
    and "bo_queue p = [] \<and> released p = [] \<and> bo_queue p' = []"
  with queue_run_fifo [of ops p p'] show "released p' = submitted ops"
    by (simp add: queued_def map_filter_simps)
next
  fix p'
  assume "exec xs p = Some p' \<and> fifo_ok p"
  then show "fifo_ok p'" using exec_fifo_ok by blast
qed

theorem fifo_release_order_witness:
  "queue_run [Enqueue 1, Enqueue 2, Retire, Enqueue 3, Retire, Retire] (init_state\<lparr>bo_queue := []\<rparr>) =
     Some (init_state\<lparr>bo_queue := [], vsync := stamp 4, released := [1, 2, 3]\<rparr>) \<and>
   released (init_state\<lparr>bo_queue := [], vsync := stamp 4, released := [1, 2, 3]\<rparr>) =
     submitted [Enqueue 1, Enqueue 2, Retire, Enqueue 3, Retire, Retire] \<and>
   fifo_ok init_state \<and>
   (\<exists>p'. exec [Swap_buffers, Control VOCTRL_PAUSE, Swap_buffers] init_state = Some p' \<and>
         fifo_ok p' \<and> released p' = [1, 2] \<and> locked p' = [1, 2, 3])"
proof -
  let ?ops = "[Enqueue 1, Enqueue 2, Retire, Enqueue 3, Retire, Retire]"
  let ?xs = "[Swap_buffers, Control VOCTRL_PAUSE, Swap_buffers]"
  let ?p0 = "init_state\<lparr>bo_queue := []\<rparr>"
  let ?p1 = "init_state\<lparr>bo_queue := [], vsync := stamp 4, released := [1, 2, 3]\<rparr>"
  have r: "queue_run ?ops ?p0 = Some ?p1"
    by (simp add: init_state_def stamp_def enqueue_bo_def swapchain_step_def dequeue_bo_def
        num_bos_def gbm_surface_release_buffer_def Let_def)
  have e0: "bo_queue ?p0 = [] \<and> released ?p0 = [] \<and> bo_queue ?p1 = []"
    by (simp add: init_state_def)
  have i: "fifo_ok init_state"
    by (simp add: fifo_ok_def queued_def init_state_def map_filter_simps)
  have "map_option released (exec ?xs init_state) = Some [1, 2] \<and>
        map_option locked (exec ?xs init_state) = Some [1, 2, 3]"
    by (simp add: run_simps)
  then obtain p' where e: "exec ?xs init_state = Some p'"
    and l: "released p' = [1, 2]" "locked p' = [1, 2, 3]"
    by auto
  note t1 = fifo_release_order [of ?ops ?p0 ?xs]
  note t2 = fifo_release_order [of "[]" init_state ?xs]
  from t1 r e0 have a: "released ?p1 = submitted ?ops" by blast
  from t2 e i have b: "fifo_ok p'" by blast
  from r a i e b l show ?thesis by blast
qed

subsection \<open>Draining returns\<close>

text \<open>With an environment in which the awaited event (or a failed dispatch) always
  arrives in the end and every commit succeeds, the wait and the drain loop return.\<close>

lemma flips_arrive_stl:
  "flips_arrive p \<Longrightarrow>
     flips_arrive (p\<lparr>env := (env p)\<lparr>poll_events := stl (poll_events (env p))\<rparr>\<rparr>)"
  unfolding flips_arrive_def
proof
  fix n
  assume "\<forall>n. \<exists>m. poll_events (env p) !! (n + m) \<notin> {Poll_timeout, Other_event}"
  then obtain m where "poll_events (env p) !! (Suc n + m) \<notin> {Poll_timeout, Other_event}"
    by blast
  then show "\<exists>m. poll_events (env (p\<lparr>env := (env p)\<lparr>poll_events := stl (poll_events (env p))\<rparr>\<rparr>)) !! (n + m)
               \<notin> {Poll_timeout, Other_event}"
    by auto
qed

lemma wait_on_flip_settled:
  assumes "waiting_for_flip p \<longrightarrow> shd (poll_events (env p)) \<notin> {Poll_timeout, Other_event}"
    and "flips_arrive p"
  shows "\<exists>p'. wait_on_flip p = Some p' \<and> flips_arrive p'"
proof (cases "waiting_for_flip p")
  case False
  with assms(2) show ?thesis by (subst wait_on_flip.simps) simp
next
  case True
  let ?p1 = "p\<lparr>env := (env p)\<lparr>poll_events := stl (poll_events (env p))\<rparr>\<rparr>"
  note f1 = flips_arrive_stl [OF assms(2)]
  from True assms(1) consider v where "shd (poll_events (env p)) = Flip_event v"
    | "shd (poll_events (env p)) = Event_error"
    by (cases "shd (poll_events (env p))") auto
  then show ?thesis
  proof cases
    case 1
    have "wait_on_flip (drm_pflip_cb v ?p1) = Some (drm_pflip_cb v ?p1)"
      by (subst wait_on_flip.simps) (simp add: drm_pflip_cb_def)
    with True 1 have "wait_on_flip p = Some (drm_pflip_cb v ?p1)"
      by (subst wait_on_flip.simps) (simp add: poll_def POLLIN_def drmHandleEvent_def)
    moreover from f1 have "flips_arrive (drm_pflip_cb v ?p1)"
      by (simp add: flips_arrive_def drm_pflip_cb_def)
    ultimately show ?thesis by blast
  next
    case 2
    with True have "wait_on_flip p = Some ?p1"
      by (subst wait_on_flip.simps) (simp add: poll_def POLLIN_def drmHandleEvent_def)
    with f1 show ?thesis by blast
  qed
qed

lemma wait_on_flip_returns_after:
  "poll_events (env p) !! m \<notin> {Poll_timeout, Other_event} \<Longrightarrow> flips_arrive p \<Longrightarrow>
     \<exists>p'. wait_on_flip p = Some p' \<and> flips_arrive p'"
proof (induction m arbitrary: p)
  case 0
  then show ?case by (simp add: wait_on_flip_settled)
next
  case (Suc m)
  let ?p1 = "p\<lparr>env := (env p)\<lparr>poll_events := stl (poll_events (env p))\<rparr>\<rparr>"
  show ?case
  proof (cases "waiting_for_flip p \<and> shd (poll_events (env p)) \<in> {Poll_timeout, Other_event}")
    case False
    with Suc.prems(2) show ?thesis by (simp add: wait_on_flip_settled)
  next
    case True
    then have "wait_on_flip p = wait_on_flip ?p1"
      by (subst wait_on_flip.simps) (auto simp: poll_def POLLIN_def drmHandleEvent_def)
    moreover from Suc.prems(1) have "poll_events (env ?p1) !! m \<notin> {Poll_timeout, Other_event}"
      by simp
    ultimately show ?thesis
      using Suc.IH [of ?p1] flips_arrive_stl [OF Suc.prems(2)] by simp
  qed
qed

lemma wait_on_flip_returns:
  assumes "flips_arrive p"
  shows "\<exists>p'. wait_on_flip p = Some p' \<and> flips_arrive p'"
proof -
  from assms obtain m where "poll_events (env p) !! (0 + m) \<notin> {Poll_timeout, Other_event}"
    unfolding flips_arrive_def by blast
  with wait_on_flip_returns_after [of p m] assms show ?thesis by simp
qed

lemma queue_flip_returns:
  assumes "bo frame \<noteq> None"
  shows "\<exists>p'. queue_flip frame p = Some p' \<and>
           atomic_commit (env p') = stl (atomic_commit (env p))"
  using assms update_framebuffer_fb [of "the (bo frame)" p]
  unfolding queue_flip_def
  by (auto simp: Let_def case_prod_beta set_properties_state update_framebuffer_frame
      drmModeAtomicCommit_def drmModeAtomicAlloc_def simp del: drm_object_set_properties.simps
      split: option.splits)

lemma commits_succeed_stl:
  "commits_succeed p \<Longrightarrow> atomic_commit (env p') = stl (atomic_commit (env p)) \<Longrightarrow>
     shd (atomic_commit (env p)) = 0 \<and> commits_succeed p'"
  unfolding commits_succeed_def
  using shd_sset [of "atomic_commit (env p)"] by (auto dest: stl_sset)

lemma finish_pending_flip_returns:
  assumes "flips_arrive p" and "commits_succeed p"
  shows "\<exists>p1. finish_pending_flip p = Some p1 \<and> flips_arrive p1 \<and> commits_succeed p1 \<and>
           (if waiting_for_flip p then bo_queue p1 = tl (bo_queue p) else p1 = p)"
proof (cases "waiting_for_flip p")
  case False
  with assms show ?thesis by (simp add: finish_pending_flip_def)
next
  case True
  from wait_on_flip_returns [OF assms(1)] obtain q where
    q: "wait_on_flip p = Some q" "flips_arrive q" by blast
  obtain p1 where s: "swapchain_step q = Some p1"
    using swapchain_step_returns by blast
  from q s True have "finish_pending_flip p = Some p1"
    by (simp add: finish_pending_flip_def)
  moreover from q(2) swapchain_step_frame(5) [OF s] have "flips_arrive p1"
    by (simp add: flips_arrive_def)
  moreover from assms(2) swapchain_step_frame(5) [OF s] wait_on_flip_frame(10) [OF q(1)]
  have "commits_succeed p1" by (simp add: commits_succeed_def)
  moreover from swapchain_step_frame(1) [OF s] wait_on_flip_frame(1) [OF q(1)]
  have "bo_queue p1 = tl (bo_queue p)" by simp
  ultimately show ?thesis using True by simp
qed

lemma drain_loop_returns:
  "flips_arrive p \<Longrightarrow> commits_succeed p \<Longrightarrow> \<exists>p'. swap_loop True p = Some p'"
proof (induction "2 * num_bos p + (if waiting_for_flip p then 0 else 1)" arbitrary: p
    rule: less_induct)
  case less
  from finish_pending_flip_returns [OF less.prems] obtain p1 where
    f: "finish_pending_flip p = Some p1" and fa: "flips_arrive p1" and cs: "commits_succeed p1"
    and q1: "if waiting_for_flip p then bo_queue p1 = tl (bo_queue p) else p1 = p"
    by blast
  have lc: "loop_cond True p = (True, p)" by (simp add: loop_cond_def)
  show ?case
  proof (cases "num_bos p1 \<le> 1")
    case True
    with f have "swap_iteration p = Some (Break p1)" by (simp add: swap_iteration_def)
    with lc have "swap_loop True p = Some p1" by (subst swap_loop.simps) simp
    then show ?thesis by blast
  next
    case False
    show ?thesis
    proof (cases "bo (bo_queue p1 ! 1) = None")
      case True
      obtain q where s: "swapchain_step p1 = Some q"
        using swapchain_step_returns by blast
      with f False True have it: "swap_iteration p = Some (Continue q)"
        by (simp add: swap_iteration_def)
      note fr = swapchain_step_frame [OF s]
      from fa cs fr(5) have e: "flips_arrive q" "commits_succeed q"
        by (simp_all add: flips_arrive_def commits_succeed_def)
      from False fr(1) q1 have
        "2 * num_bos q + (if waiting_for_flip q then 0 else 1) <
         2 * num_bos p + (if waiting_for_flip p then 0 else 1)"
        by (cases "bo_queue p1"; cases "bo_queue p") (auto simp: num_bos_def split: if_splits)
      from less.hyps [OF this e] obtain p' where "swap_loop True q = Some p'" by blast
      with lc it have "swap_loop True p = Some p'" by (subst swap_loop.simps) simp
      then show ?thesis by blast
    next
      case hole: False
      from queue_flip_returns [OF hole] obtain q where
        qf: "queue_flip (bo_queue p1 ! 1) p1 = Some q"
        and ac: "atomic_commit (env q) = stl (atomic_commit (env p1))" by blast
      with f False hole have it: "swap_iteration p = Some (Continue q)"
        by (auto simp: swap_iteration_def)
      note fr = queue_flip_frame [OF qf]
      from commits_succeed_stl [OF cs ac] have ok: "shd (atomic_commit (env p1)) = 0"
        and cq: "commits_succeed q" by simp_all
      from fa fr(6) have fq: "flips_arrive q" by (simp add: flips_arrive_def)
      from ok fr(7) have wq: "waiting_for_flip q" by simp
      from False wq fr(1) q1 have
        "2 * num_bos q + (if waiting_for_flip q then 0 else 1) <
         2 * num_bos p + (if waiting_for_flip p then 0 else 1)"
        by (cases "bo_queue p") (auto simp: num_bos_def split: if_splits)
      from less.hyps [OF this fq cq] obtain p' where "swap_loop True q = Some p'" by blast
      with lc it have "swap_loop True p = Some p'" by (subst swap_loop.simps) simp
      then show ?thesis by blast
    qed
  qed
qed

lemma drain_returns:
  assumes "flips_arrive p" and "commits_succeed p" and "paused p \<or> still p"
  shows "\<exists>p'. drm_egl_swap_buffers p = Some p'"
proof (cases "active p \<and> shd (lock_front_buffer (env p)) \<noteq> None")
  case False
  then show ?thesis
    by (auto simp: drm_egl_swap_buffers_def Let_def case_prod_beta
        gbm_surface_lock_front_buffer_def wait_fence_frame)
next
  case True
  let ?q = "new_fence (enqueue_bo (shd (lock_front_buffer (env p)))
              (snd (gbm_surface_lock_front_buffer (wait_fence p))))"
  have e: "poll_events (env ?q) = poll_events (env p)"
    "atomic_commit (env ?q) = atomic_commit (env p)"
    by (simp_all add: new_fence_def FenceSync_def enqueue_bo_def Let_def
        gbm_surface_lock_front_buffer_def wait_fence_frame split: option.splits)
  with assms(1,2) have "flips_arrive ?q" "commits_succeed ?q"
    by (simp_all add: flips_arrive_def commits_succeed_def)
  from drain_loop_returns [OF this] obtain p' where "swap_loop True ?q = Some p'" by blast
  with True assms(3) have "drm_egl_swap_buffers p = Some p'"
    by (auto simp: drm_egl_swap_buffers_def Let_def case_prod_beta
        gbm_surface_lock_front_buffer_def wait_fence_frame)
  then show ?thesis by blast
qed

subsection \<open>Draining\<close>

text \<open>C3, as amended. Let \<^verbatim>\<open>drm_egl_swap_buffers\<close> be called with drain requested
  (paused or still) on an active session, with a front buffer that can be locked. Then it
  returns only with at most one entry in the queue, and with \<^verbatim>\<open>waiting_for_flip\<close> clear
  provided \<^verbatim>\<open>drmHandleEvent\<close> never fails; and it does return when every commit
  succeeds and every wait gets its event, or a failed dispatch, in the end.\<close>

theorem drain_returns_drained:
  "paused p \<or> still p \<Longrightarrow> active p \<Longrightarrow> shd (lock_front_buffer (env p)) \<noteq> None \<Longrightarrow>
     (\<forall>p'. drm_egl_swap_buffers p = Some p' \<longrightarrow>
        num_bos p' \<le> 1 \<and> (dispatch_never_fails p \<longrightarrow> \<not> waiting_for_flip p')) \<and>
     (flips_arrive p \<and> commits_succeed p \<longrightarrow> (\<exists>p'. drm_egl_swap_buffers p = Some p'))"
proof -
  assume drain: "paused p \<or> still p" and act: "active p"
    and lock: "shd (lock_front_buffer (env p)) \<noteq> None"
  have "num_bos p' \<le> 1 \<and> (dispatch_never_fails p \<longrightarrow> \<not> waiting_for_flip p')"
    if run: "drm_egl_swap_buffers p = Some p'" for p'
  proof -
    from swap_buffers_loop [OF run act lock] obtain q where
      q: "swap_loop (paused p \<or> still p) q = Some p'"
        "poll_events (env q) = poll_events (env p)"
      by blast
    from q(2) have "dispatch_never_fails q = dispatch_never_fails p"
      by (simp add: dispatch_never_fails_def)
    with swap_loop_inv [OF q(1)] drain show ?thesis by simp
  qed
  with drain_returns [of p] drain show ?thesis by blast
qed

lemma dispatch_never_fails_init: "dispatch_never_fails (init_state\<lparr>paused := True\<rparr>)"
  "dispatch_never_fails init_state"
  by (simp_all add: dispatch_never_fails_def init_state_def env0_def)

lemma cooperative_init:
  "flips_arrive (init_state\<lparr>paused := True\<rparr>)" "commits_succeed (init_state\<lparr>paused := True\<rparr>)"
  by (simp_all add: flips_arrive_def commits_succeed_def init_state_def env0_def)

theorem drain_returns_drained_witness:
  "(paused (init_state\<lparr>paused := True\<rparr>) \<or> still (init_state\<lparr>paused := True\<rparr>)) \<and>
   active (init_state\<lparr>paused := True\<rparr>) \<and>
   shd (lock_front_buffer (env (init_state\<lparr>paused := True\<rparr>))) \<noteq> None \<and>
   dispatch_never_fails (init_state\<lparr>paused := True\<rparr>) \<and>
   flips_arrive (init_state\<lparr>paused := True\<rparr>) \<and>
   commits_succeed (init_state\<lparr>paused := True\<rparr>) \<and>
   (\<exists>p'. drm_egl_swap_buffers (init_state\<lparr>paused := True\<rparr>) = Some p' \<and>
         num_bos p' \<le> 1 \<and> \<not> waiting_for_flip p')"
proof -
  have h: "paused (init_state\<lparr>paused := True\<rparr>) \<or> still (init_state\<lparr>paused := True\<rparr>)"
    "active (init_state\<lparr>paused := True\<rparr>)"
    "shd (lock_front_buffer (env (init_state\<lparr>paused := True\<rparr>))) \<noteq> None"
    by (simp_all add: init_state_def env0_def)
  from drain_returns_drained [OF h] dispatch_never_fails_init(1) cooperative_init h
  show ?thesis by blast
qed

text \<open>The claim as stated fails in three ways: a failed dispatch ends the wait with the
  flag still set; on an inactive session the call returns at once, whatever the queue
  holds; and when the front buffer cannot be locked it returns right after the fence
  wait.\<close>

theorem drain_returns_drained_counterexample:
  "map_option waiting_for_flip
     (drm_egl_swap_buffers
        (init_state\<lparr>paused := True, env := env0\<lparr>poll_events := sconst Event_error\<rparr>\<rparr>)) = Some True \<and>
   map_option num_bos
     (exec [Swap_buffers, Release_vt, Control VOCTRL_PAUSE, Swap_buffers] init_state) = Some 2 \<and>
   map_option num_bos
     (exec [Swap_buffers, Control VOCTRL_PAUSE, Swap_buffers]
        (init_state\<lparr>env := env0\<lparr>lock_front_buffer := Some 2 ## sconst None\<rparr>\<rparr>)) = Some 2"
  by (simp add: run_simps release_vt_def crtc_release_def)

subsection \<open>One flip in flight\<close>

lemma crtc_setup_commits:
  assumes "crtc_setup p = Some (r, p1)"
  shows "poll_events (env p1) = poll_events (env p)"
    "commits p1 = commits p \<or> (\<exists>c. commits p1 = commits p @ [c] \<and> c_flags c = [ALLOW_MODESET])"
  using assms unfolding crtc_setup_def
  by (auto simp: Let_def case_prod_beta set_property_state set_properties_state
      drm_atomic_save_old_state_def drmModeAtomicAlloc_def drm_mode_ensure_blob_def
      drmModeAtomicCommit_def simp del: drm_object_set_properties.simps
      split: if_splits option.splits)

lemma crtc_release_commits_flags:
  "poll_events (env (crtc_release p)) = poll_events (env p)"
  "commits (crtc_release p) = commits p \<or>
     (\<exists>c. commits (crtc_release p) = commits p @ [c] \<and> c_flags c = [ALLOW_MODESET])"
  unfolding crtc_release_def
  by (auto simp: Let_def case_prod_beta drmModeAtomicAlloc_def drm_atomic_restore_old_state_def
      drmModeAtomicCommit_def split: if_splits option.splits)

lemma perform_inv:
  assumes run: "perform x p = Some p'" and d: "dispatch_never_fails p"
    and c: "\<not> list_ex flip_while_pending (commits p)"
  shows "dispatch_never_fails p' \<and> \<not> list_ex flip_while_pending (commits p')"
proof (cases x)
  case Start_frame
  with run d c show ?thesis
    by (auto simp: drm_egl_start_frame_def drmModeAtomicAlloc_def dispatch_never_fails_def
        Let_def split: if_splits)
next
  case (Submit_frame b)
  with run d c show ?thesis
    by (auto simp: drm_egl_submit_frame_def dispatch_never_fails_def)
next
  case Swap_buffers
  with run swap_buffers_inv [of p p'] d c show ?thesis by simp
next
  case (Control v)
  with run d c show ?thesis
    by (cases v) (auto simp: dispatch_never_fails_def)
next
  case Acquire_vt
  with run obtain r where s: "crtc_setup p = Some (r, p')"
    by (auto simp: acquire_vt_def)
  from crtc_setup_commits [OF s] d c show ?thesis
    by (auto simp: dispatch_never_fails_def flip_while_pending_def)
next
  case Release_vt
  with run have "p' = crtc_release p" by (simp add: release_vt_def)
  with crtc_release_commits_flags [of p] d c show ?thesis
    by (auto simp: dispatch_never_fails_def flip_while_pending_def)
qed

lemma exec_inv:
  "exec ops p = Some p' \<Longrightarrow> dispatch_never_fails p \<Longrightarrow>
   \<not> list_ex flip_while_pending (commits p) \<Longrightarrow>
     dispatch_never_fails p' \<and> \<not> list_ex flip_while_pending (commits p')"
proof (induction ops arbitrary: p)
  case Nil
  then show ?case by simp
next
  case (Cons x xs)
  from Cons.prems(1) obtain p1 where s: "perform x p = Some p1" and r: "exec xs p1 = Some p'"
    by (auto split: option.splits)
  from perform_inv [OF s Cons.prems(2,3)] Cons.IH [OF r] show ?case by simp
qed

text \<open>C4, as amended. In every execution of the engine in which \<^verbatim>\<open>drmHandleEvent\<close>
  never fails, no page flip commit is issued while \<^verbatim>\<open>waiting_for_flip\<close> is set: if no
  commit made before the execution was one, none made during it is.\<close>

theorem no_flip_commit_while_pending:
  "exec ops p = Some p' \<Longrightarrow> dispatch_never_fails p \<Longrightarrow>
   \<not> list_ex flip_while_pending (commits p) \<Longrightarrow>
     \<not> list_ex flip_while_pending (commits p')"
  using exec_inv [of ops p p'] by simp

theorem no_flip_commit_while_pending_witness:
  "dispatch_never_fails init_state \<and>
   \<not> list_ex flip_while_pending (commits init_state) \<and>
   (\<exists>p'. exec [Swap_buffers, Control VOCTRL_PAUSE, Swap_buffers] init_state = Some p' \<and>
         length (commits p') = 2 \<and> \<not> list_ex flip_while_pending (commits p'))"
proof -
  have "map_option (length \<circ> commits)
          (exec [Swap_buffers, Control VOCTRL_PAUSE, Swap_buffers] init_state) = Some 2"
    by (simp add: run_simps)
  then obtain p' where r: "exec [Swap_buffers, Control VOCTRL_PAUSE, Swap_buffers] init_state = Some p'"
    and l: "length (commits p') = 2"
    by auto
  have c: "\<not> list_ex flip_while_pending (commits init_state)"
    by (simp add: init_state_def)
  from no_flip_commit_while_pending [OF r dispatch_never_fails_init(2) c] r l c
    dispatch_never_fails_init(2)
  show ?thesis by blast
qed

text \<open>The claim as stated fails after a failed dispatch: \<^verbatim>\<open>wait_on_flip\<close> returns
  with the flag set, the head is retired, and the next flip is committed.\<close>

theorem no_flip_commit_while_pending_counterexample:
  "map_option (map flip_while_pending \<circ> commits)
     (exec [Swap_buffers, Control VOCTRL_PAUSE, Swap_buffers]
        (init_state\<lparr>env := env0\<lparr>poll_events := Event_error ## sconst (Flip_event (stamp 0))\<rparr>\<rparr>)) =
   Some [False, True]"
  by (simp add: run_simps flip_while_pending_def)

subsection \<open>Fences and buffers\<close>

lemma wait_fence_bound:
  "num_vsync_fences (wait_fence p) = 0 \<or> num_vsync_fences (wait_fence p) < num_bos (wait_fence p)"
proof (induction p rule: wait_fence.induct)
  case (1 p)
  then show ?case by (subst (1 2 3) wait_fence.simps) (auto simp: num_bos_def)
qed

lemma prologue_bound:
  assumes "num_vsync_fences p = 0 \<or> num_vsync_fences p < num_bos p"
  shows "num_vsync_fences (new_fence (enqueue_bo b (snd (gbm_surface_lock_front_buffer p)))) \<le>
         num_bos (new_fence (enqueue_bo b (snd (gbm_surface_lock_front_buffer p))))"
  using assms
  by (auto simp: num_vsync_fences_def num_bos_def new_fence_def FenceSync_def enqueue_bo_def
      gbm_surface_lock_front_buffer_def Let_def split: option.splits)

text \<open>C1, as amended. The fence FIFO is no longer than the buffer queue after every
  \<^verbatim>\<open>wait_fence\<close>, and again after the enqueue and the fence recording that follow it in
  \<^verbatim>\<open>drm_egl_swap_buffers\<close>, that is, when the swap loop is entered. \<^verbatim>\<open>enqueue_bo\<close>
  keeps the bound and \<^verbatim>\<open>queue_flip\<close> changes neither length; \<^verbatim>\<open>new_fence\<close> and
  \<^verbatim>\<open>swapchain_step\<close> keep it when the FIFO was strictly shorter than the queue.\<close>

theorem fence_bound_operations:
  "num_vsync_fences (wait_fence p) \<le> num_bos (wait_fence p) \<and>
   num_vsync_fences (new_fence (enqueue_bo b (snd (gbm_surface_lock_front_buffer (wait_fence p))))) \<le>
     num_bos (new_fence (enqueue_bo b (snd (gbm_surface_lock_front_buffer (wait_fence p))))) \<and>
   (num_vsync_fences p \<le> num_bos p \<longrightarrow>
      num_vsync_fences (enqueue_bo b p) \<le> num_bos (enqueue_bo b p)) \<and>
   (num_vsync_fences p < num_bos p \<longrightarrow>
      num_vsync_fences (new_fence p) \<le> num_bos (new_fence p)) \<and>
   (\<forall>p'. queue_flip frame p = Some p' \<longrightarrow>
      num_vsync_fences p' = num_vsync_fences p \<and> num_bos p' = num_bos p) \<and>
   (\<forall>p'. swapchain_step p = Some p' \<and> num_vsync_fences p < num_bos p \<longrightarrow>
      num_vsync_fences p' \<le> num_bos p')"
proof -
  have "num_vsync_fences (wait_fence p) \<le> num_bos (wait_fence p)"
    using wait_fence_bound [of p] by auto
  moreover note prologue_bound [OF wait_fence_bound, of b p]
  moreover have "num_vsync_fences p \<le> num_bos p \<longrightarrow>
      num_vsync_fences (enqueue_bo b p) \<le> num_bos (enqueue_bo b p)"
    by (simp add: num_vsync_fences_def num_bos_def enqueue_bo_def Let_def)
  moreover have "num_vsync_fences p < num_bos p \<longrightarrow>
      num_vsync_fences (new_fence p) \<le> num_bos (new_fence p)"
    by (auto simp: num_vsync_fences_def num_bos_def new_fence_def FenceSync_def split: option.splits)
  moreover have "\<forall>p'. queue_flip frame p = Some p' \<longrightarrow>
      num_vsync_fences p' = num_vsync_fences p \<and> num_bos p' = num_bos p"
    by (simp add: num_vsync_fences_def num_bos_def queue_flip_frame)
  moreover have "\<forall>p'. swapchain_step p = Some p' \<and> num_vsync_fences p < num_bos p \<longrightarrow>
      num_vsync_fences p' \<le> num_bos p'"
    by (auto simp: num_vsync_fences_def num_bos_def swapchain_step_frame)
  ultimately show ?thesis by blast
qed

theorem fence_bound_operations_witness:
  "num_vsync_fences (wait_fence init_state) \<le> num_bos (wait_fence init_state) \<and>
   num_vsync_fences init_state \<le> num_bos init_state \<and>
   num_vsync_fences (enqueue_bo (Some 2) init_state) \<le> num_bos (enqueue_bo (Some 2) init_state) \<and>
   num_vsync_fences init_state < num_bos init_state \<and>
   num_vsync_fences (new_fence init_state) \<le> num_bos (new_fence init_state) \<and>
   (\<exists>p'. queue_flip \<lparr>bo = Some 1, frame_vsync = stamp 1\<rparr> init_state = Some p' \<and>
         num_vsync_fences p' = num_vsync_fences init_state \<and> num_bos p' = num_bos init_state) \<and>
   (\<exists>p'. swapchain_step init_state = Some p' \<and> num_vsync_fences p' \<le> num_bos p')"
proof -
  have "map_option num_bos (queue_flip \<lparr>bo = Some 1, frame_vsync = stamp 1\<rparr> init_state) = Some 1"
    by (simp add: run_simps)
  then obtain p1 where q: "queue_flip \<lparr>bo = Some 1, frame_vsync = stamp 1\<rparr> init_state = Some p1"
    by blast
  obtain p2 where s: "swapchain_step init_state = Some p2"
    using swapchain_step_returns by blast
  have h: "num_vsync_fences init_state \<le> num_bos init_state"
    "num_vsync_fences init_state < num_bos init_state"
    by (simp_all add: num_vsync_fences_def num_bos_def init_state_def)
  from fence_bound_operations [of init_state "Some 2" "\<lparr>bo = Some 1, frame_vsync = stamp 1\<rparr>"] q s h
  show ?thesis by blast
qed

text \<open>The claim as stated fails at the return of a draining swap that follows a swap
  without drain: the loop retires two heads, and two fences are left for one buffer.\<close>

theorem fence_bound_counterexample:
  "map_option num_vsync_fences
     (exec [Swap_buffers, Control VOCTRL_PAUSE, Swap_buffers] init_state) = Some 2 \<and>
   map_option num_bos
     (exec [Swap_buffers, Control VOCTRL_PAUSE, Swap_buffers] init_state) = Some 1"
  by (simp add: run_simps)


subsection \<open>Holes in the queue\<close>











text \<open>What the hole branch of the loop does, were a hole to stand second in the queue:
  it retires the head and leaves the hole to the next retirement. No execution brings
  it there, as the theorem after this one shows.\<close>

lemma hole_branch_retires_head:
  "finish_pending_flip p = Some p1 \<Longrightarrow> bo_queue p1 = f0 # f1 # rest \<Longrightarrow> bo f1 = None \<Longrightarrow>
     swap_iteration p =
       Some (Continue (p1\<lparr>bo_queue := f1 # rest,
                          released := released p1 @ (case bo f0 of None \<Rightarrow> [] | Some b \<Rightarrow> [b])\<rparr>))"
  by (auto simp: swap_iteration_def swapchain_step_def dequeue_bo_def num_bos_def
      gbm_surface_release_buffer_def split: option.splits)



end
